theory Spec2Isabelle
  imports Complex_Main "HOL-Library.Log_Nat" "HOL-Library.Multiset"
begin

section \<open>JavaScript strings\<close>

text \<open>
  A JavaScript string is a sequence of UTF-16 code units. The model works on the code
  units U+0000 to U+00FF (Latin-1), one \<^typ>\<open>char\<close> each, which covers the ASCII
  documents the page reads; \<open>toLowerCase\<close> maps this range into itself.
\<close>

text \<open>
  White space and line terminators of \<open>String.prototype.trim\<close> in this range:
  TAB, LF, VT, FF, CR, SPACE and NO-BREAK SPACE.
\<close>

definition is_ws :: "char \<Rightarrow> bool" where
  "is_ws c = (c \<in> set [CHR 0x09, CHR 0x0A, CHR 0x0B, CHR 0x0C, CHR 0x0D, CHR 0x20, CHR 0xA0])"

definition trim :: "string \<Rightarrow> string" where
  "trim s = rev (dropWhile is_ws (rev (dropWhile is_ws s)))"

text \<open>\<open>s.startsWith(p)\<close>, at position 0.\<close>

definition startsWith :: "string \<Rightarrow> string \<Rightarrow> bool" where
  "startsWith s p = (take (length p) s = p)"

text \<open>
  \<open>s.split("\n")\<close>: the substrings between the separators, so that the empty string
  gives one empty line and a final line feed gives a final empty line.
\<close>

fun split_nl :: "string \<Rightarrow> string list" where
  "split_nl [] = [[]]"
| "split_nl (c # cs) =
     (if c = CHR 0x0A then [] # split_nl cs
      else (case split_nl cs of [] \<Rightarrow> [[c]] | l # ls \<Rightarrow> (c # l) # ls))"

text \<open>
  \<open>toLowerCase\<close>: A to Z, and the Latin-1 capitals U+00C0 to U+00DE except the
  multiplication sign U+00D7, move up by 32.
\<close>

definition lower_char :: "char \<Rightarrow> char" where
  "lower_char c =
     (let n = of_char c :: nat in
      if (65 \<le> n \<and> n \<le> 90) \<or> (192 \<le> n \<and> n \<le> 222 \<and> n \<noteq> 215)
      then char_of (n + 32) else c)"

definition toLowerCase :: "string \<Rightarrow> string" where
  "toLowerCase s = map lower_char s"

text \<open>
  \<open>s.replace(pat, rep)\<close> with a string pattern: the first occurrence only.
\<close>

fun replace_str :: "string \<Rightarrow> string \<Rightarrow> string \<Rightarrow> string" where
  "replace_str pat rep [] = (if pat = [] then rep else [])"
| "replace_str pat rep (c # cs) =
     (if startsWith (c # cs) pat then rep @ drop (length pat) (c # cs)
      else c # replace_str pat rep cs)"

section \<open>Regular expressions\<close>

text \<open>
  The two patterns of the script use anchors, character classes, sequence, alternation,
  the greedy quantifiers \<open>?\<close> and \<open>+\<close>, and capture groups. The matcher is the
  backtracking matcher of ECMAScript: from a state it returns every end state, in the
  order in which backtracking would try them, so that the head of the list is the match.
  A state is the rest of the input with the captures so far; \<open>n\<close> is the length of the
  whole input, so that the rest has length \<open>n\<close> exactly at index 0. A quantifier
  rejects an iteration that consumes nothing after its minimum is reached. No group
  stands under a quantifier here, so captures are never reset.
\<close>

datatype regex =
    Bol
  | Eol
  | Cls "char list"
  | Seq regex regex
  | Alt regex regex
  | Opt regex
  | Plus regex
  | Grp nat regex

type_synonym captures = "nat \<Rightarrow> string option"
type_synonym mstate = "string \<times> captures"

function star :: "(mstate \<Rightarrow> mstate list) \<Rightarrow> mstate \<Rightarrow> mstate list" where
  "star f st =
     concat (map (\<lambda>st'. if length (fst st') < length (fst st) then star f st' else []) (f st))
     @ [st]"
  by pat_completeness auto
termination
  by (relation "measure (\<lambda>(f, st). length (fst st))") auto

declare star.simps [simp del]

primrec matcher :: "regex \<Rightarrow> nat \<Rightarrow> mstate \<Rightarrow> mstate list" where
  "matcher Bol n st = (if length (fst st) = n then [st] else [])"
| "matcher Eol n st = (if fst st = [] then [st] else [])"
| "matcher (Cls cs) n st =
     (case fst st of [] \<Rightarrow> [] | c # r \<Rightarrow> if c \<in> set cs then [(r, snd st)] else [])"
| "matcher (Seq a b) n st = concat (map (matcher b n) (matcher a n st))"
| "matcher (Alt a b) n st = matcher a n st @ matcher b n st"
| "matcher (Opt a) n st = filter (\<lambda>st'. length (fst st') < length (fst st)) (matcher a n st) @ [st]"
| "matcher (Plus a) n st = concat (map (star (matcher a n)) (matcher a n st))"
| "matcher (Grp k a) n st =
     map (\<lambda>st'. (fst st', (snd st')(k \<mapsto> take (length (fst st) - length (fst st')) (fst st))))
       (matcher a n st)"

text \<open>
  \<open>RegExpBuiltinExec\<close> without the sticky flag: try the start indices from \<open>lastIndex\<close>
  upwards, here as the suffixes of the input. The result is the suffix at which the match
  starts and the end state of the match.
\<close>

fun search :: "regex \<Rightarrow> nat \<Rightarrow> string \<Rightarrow> (string \<times> mstate) option" where
  "search re n rest =
     (case matcher re n (rest, Map.empty) of
        st # _ \<Rightarrow> Some (rest, st)
      | [] \<Rightarrow> (case rest of [] \<Rightarrow> None | _ # r \<Rightarrow> search re n r))"

declare search.simps [simp del]

definition exec :: "regex \<Rightarrow> string \<Rightarrow> nat \<Rightarrow> (string \<times> mstate) option" where
  "exec re s lastIndex =
     (if lastIndex > length s then None else search re (length s) (drop lastIndex s))"

text \<open>
  \<open>s.match(re)\<close> for a pattern without the global flag: \<open>null\<close>, or the captures of
  the first match; index 0 is the matched text.
\<close>

definition match :: "string \<Rightarrow> regex \<Rightarrow> captures option" where
  "match s re =
     (case exec re s 0 of
        None \<Rightarrow> None
      | Some (start, (rest, caps)) \<Rightarrow>
          Some (caps(0 \<mapsto> take (length start - length rest) start)))"

text \<open>
  Every end state of the matcher is a suffix of the state it started from; the search and
  the replace loop below rest on the lengths.
\<close>

lemma star_length:
  assumes "\<And>st st'. st' \<in> set (f st) \<Longrightarrow> length (fst st') \<le> length (fst st)"
  shows "st' \<in> set (star f st) \<Longrightarrow> length (fst st') \<le> length (fst st)"
proof (induction f st arbitrary: st' rule: star.induct)
  case (1 f st)
  from "1.prems" consider "st' = st"
    | x where "x \<in> set (f st)" "length (fst x) < length (fst st)" "st' \<in> set (star f x)"
    by (subst (asm) star.simps) (auto split: if_splits)
  then show ?case
  proof cases
    case 1
    then show ?thesis by simp
  next
    case 2
    with "1.IH" have "length (fst st') \<le> length (fst x)" by blast
    with 2 show ?thesis by simp
  qed
qed

lemma matcher_length: "st' \<in> set (matcher re n st) \<Longrightarrow> length (fst st') \<le> length (fst st)"
proof (induction re arbitrary: st st')
  case (Seq a b)
  from Seq.prems obtain x where x: "x \<in> set (matcher a n st)" "st' \<in> set (matcher b n x)"
    by auto
  from Seq.IH(1) [OF x(1)] Seq.IH(2) [OF x(2)] show ?case by simp
next
  case (Plus a)
  from Plus.prems obtain x where x: "x \<in> set (matcher a n st)" "st' \<in> set (star (matcher a n) x)"
    by auto
  have "length (fst st') \<le> length (fst x)"
    using star_length [of "matcher a n" st' x] Plus.IH x(2) by blast
  with Plus.IH [OF x(1)] show ?case by simp
qed (auto split: list.splits if_splits)

lemma search_length:
  "search re n rest = Some (start, st) \<Longrightarrow>
     length start \<le> length rest \<and> length (fst st) \<le> length start"
proof (induction rest)
  case Nil
  then have "start = []" "st \<in> set (matcher re n ([], Map.empty))"
    by (subst (asm) search.simps, auto split: list.splits)+
  with matcher_length [of st re n "([], Map.empty)"] show ?case by simp
next
  case (Cons c cs)
  show ?case
  proof (cases "matcher re n (c # cs, Map.empty)")
    case Nil
    with Cons.prems have "search re n cs = Some (start, st)"
      by (subst (asm) search.simps) simp
    with Cons.IH show ?thesis by simp
  next
    case (Cons x xs)
    with Cons.prems have "start = c # cs" "st = x"
      by (subst (asm) search.simps, simp)+
    moreover have "length (fst x) \<le> length (c # cs)"
      using matcher_length [of x re n "(c # cs, Map.empty)"] Cons by simp
    ultimately show ?thesis by simp
  qed
qed

text \<open>
  \<open>s.replace(re, rep)\<close> for a pattern with the global flag and a replacement without
  \<open>$\<close>: \<open>all_matches\<close> is the loop that collects the matches as (index, end index),
  moving \<open>lastIndex\<close> to the end of each match, one further after an empty match;
  \<open>splice_matches\<close> then builds the result from the pieces between the matches.
\<close>

function all_matches :: "regex \<Rightarrow> string \<Rightarrow> nat \<Rightarrow> (nat \<times> nat) list" where
  "all_matches re s lastIndex =
     (case exec re s lastIndex of
        None \<Rightarrow> []
      | Some (start, (rest, caps)) \<Rightarrow>
          (let i = length s - length start; e = length s - length rest
           in (i, e) # all_matches re s (if e = i then e + 1 else e)))"
  by pat_completeness auto
termination
proof (relation "measure (\<lambda>(re, s, lastIndex). length s + 1 - lastIndex)", goal_cases)
  case 1
  show ?case by simp
next
  case (2 re s lastIndex x2 start st rest caps i e)
  then have ex: "lastIndex \<le> length s"
    and "search re (length s) (drop lastIndex s) = Some (start, (rest, caps))"
    by (auto simp: exec_def split: if_splits)
  from search_length [OF this(2)]
  have "length start \<le> length s - lastIndex" "length rest \<le> length start"
    by simp_all
  with ex 2 show ?case by auto
qed

declare all_matches.simps [simp del]

fun splice_matches :: "string \<Rightarrow> string \<Rightarrow> nat \<Rightarrow> (nat \<times> nat) list \<Rightarrow> string" where
  "splice_matches s rep pos [] = drop pos s"
| "splice_matches s rep pos ((i, e) # ms) =
     (if pos \<le> i then take (i - pos) (drop pos s) @ rep @ splice_matches s rep e ms
      else splice_matches s rep pos ms)"

definition replace_all :: "string \<Rightarrow> regex \<Rightarrow> string \<Rightarrow> string" where
  "replace_all s re rep = splice_matches s rep 0 (all_matches re s 0)"

section \<open>JavaScript numbers\<close>

text \<open>
  A Number is an IEEE 754 binary64 value. The model keeps the finite values as the
  rationals they denote, with the two infinities and NaN beside them; negative zero is
  not told apart from zero, which no operation of the script can observe. Every
  arithmetic operation computes the exact rational result and rounds it with
  \<open>round_double\<close>: to the nearest double, ties to the even significand, with 53
  bits of precision above \<open>2^-1022\<close>, multiples of \<open>2^-1074\<close> below, and
  infinity from \<open>2^1024\<close> on.
\<close>

datatype number = Fin rat | PosInf | NegInf | NaN

definition pow2 :: "int \<Rightarrow> rat" where
  "pow2 k = 2 powi k"

definition ilog2 :: "rat \<Rightarrow> int" where
  "ilog2 q = (if 1 \<le> q then bitlen \<lfloor>q\<rfloor> - 1 else - bitlen (\<lceil>1 / q\<rceil> - 1))"

definition round_half_even :: "rat \<Rightarrow> int" where
  "round_half_even x =
     (let f = \<lfloor>x\<rfloor>; d = x - of_int f
      in if d < 1 / 2 then f else if 1 / 2 < d then f + 1 else if even f then f else f + 1)"

definition ulp_exp :: "rat \<Rightarrow> int" where
  "ulp_exp a = max (ilog2 a - 52) (- 1074)"

definition round_double :: "rat \<Rightarrow> number" where
  "round_double q =
     (if q = 0 then Fin 0
      else
        let a = \<bar>q\<bar>;
            u = ulp_exp a;
            r = of_int (round_half_even (a / pow2 u)) * pow2 u
        in if pow2 1024 \<le> r then (if q < 0 then NegInf else PosInf)
           else Fin (if q < 0 then - r else r))"

text \<open>The doubles: the values that \<open>round_double\<close> leaves as they are.\<close>

definition is_double :: "rat \<Rightarrow> bool" where
  "is_double q = (round_double q = Fin q)"

fun fneg :: "number \<Rightarrow> number" where
  "fneg (Fin q) = Fin (- q)"
| "fneg PosInf = NegInf"
| "fneg NegInf = PosInf"
| "fneg NaN = NaN"

text \<open>
  Multiplication, subtraction, division and \<open>>=\<close>. A product or quotient with an
  infinity takes its sign from the operands; \<open>0 * Infinity\<close>,
  \<open>Infinity - Infinity\<close>, \<open>0 / 0\<close> and \<open>Infinity / Infinity\<close> are NaN; every
  comparison with NaN is false.
\<close>

fun fmul :: "number \<Rightarrow> number \<Rightarrow> number" where
  "fmul (Fin a) (Fin b) = round_double (a * b)"
| "fmul NaN y = NaN"
| "fmul x NaN = NaN"
| "fmul (Fin a) y = (if a = 0 then NaN else if 0 < a then y else fneg y)"
| "fmul x (Fin b) = (if b = 0 then NaN else if 0 < b then x else fneg x)"
| "fmul PosInf y = y"
| "fmul NegInf y = fneg y"

fun fsub :: "number \<Rightarrow> number \<Rightarrow> number" where
  "fsub (Fin a) (Fin b) = round_double (a - b)"
| "fsub NaN y = NaN"
| "fsub x NaN = NaN"
| "fsub PosInf PosInf = NaN"
| "fsub NegInf NegInf = NaN"
| "fsub PosInf y = PosInf"
| "fsub NegInf y = NegInf"
| "fsub x y = fneg y"

fun fdiv :: "number \<Rightarrow> number \<Rightarrow> number" where
  "fdiv (Fin a) (Fin b) =
     (if b = 0 then (if a = 0 then NaN else if 0 < a then PosInf else NegInf)
      else round_double (a / b))"
| "fdiv NaN y = NaN"
| "fdiv x NaN = NaN"
| "fdiv (Fin a) y = Fin 0"
| "fdiv x (Fin b) = (if 0 \<le> b then x else fneg x)"
| "fdiv x y = NaN"

fun fge :: "number \<Rightarrow> number \<Rightarrow> bool" where
  "fge (Fin a) (Fin b) = (b \<le> a)"
| "fge NaN y = False"
| "fge x NaN = False"
| "fge PosInf y = True"
| "fge x NegInf = True"
| "fge x y = False"

text \<open>Decimal digits, the value of a digit string and the digit string of a natural number.\<close>

definition is_digit :: "char \<Rightarrow> bool" where
  "is_digit c = (c \<in> set ''0123456789'')"

definition digit_val :: "char \<Rightarrow> nat" where
  "digit_val c = of_char c - 48"

definition dec_value :: "string \<Rightarrow> nat" where
  "dec_value ds = foldl (\<lambda>a c. 10 * a + digit_val c) 0 ds"

definition digit_char :: "nat \<Rightarrow> char" where
  "digit_char d = char_of (48 + d)"

function digits :: "nat \<Rightarrow> string" where
  "digits n = (if n < 10 then [digit_char n] else digits (n div 10) @ [digit_char (n mod 10)])"
  by pat_completeness auto
termination
  by (relation "measure id") auto

declare digits.simps [simp del]

text \<open>
  \<open>parseFloat\<close>: skip leading white space, then read the longest prefix that is a
  \<open>StrDecimalLiteral\<close> (a sign, then \<open>Infinity\<close> or digits with an optional
  fraction and exponent) and round its value; NaN when there is no such prefix. A
  literal of more than 20 significant digits is rounded correctly here, as the engines
  do, where the standard also allows the value of its first 20 digits.
\<close>

definition exponent_part :: "string \<Rightarrow> int" where
  "exponent_part s =
     (case s of
        [] \<Rightarrow> 0
      | c # r \<Rightarrow>
          if c = CHR ''e'' \<or> c = CHR ''E'' then
            (let (sg, ds) =
                   (case r of
                      [] \<Rightarrow> (1, [])
                    | x # r' \<Rightarrow>
                        if x = CHR ''-'' then (- 1, r')
                        else if x = CHR ''+'' then (1, r') else (1, r));
                 es = takeWhile is_digit ds
             in if es = [] then 0 else sg * int (dec_value es))
          else 0)"

definition parseFloat :: "string \<Rightarrow> number" where
  "parseFloat inputString =
     (let trimmed = dropWhile is_ws inputString;
          neg = startsWith trimmed ''-'';
          t = (if neg \<or> startsWith trimmed ''+'' then tl trimmed else trimmed)
      in if startsWith t ''Infinity'' then (if neg then NegInf else PosInf)
         else
           let ip = takeWhile is_digit t;
               r1 = dropWhile is_digit t;
               dot = startsWith r1 ''.'';
               fp = (if dot then takeWhile is_digit (tl r1) else []);
               r2 = (if dot then dropWhile is_digit (tl r1) else r1)
           in if ip = [] \<and> fp = [] then NaN
              else
                let mv = (of_nat (dec_value ip) + of_nat (dec_value fp) / 10 ^ length fp)
                           * 10 powi exponent_part r2
                in round_double (if neg then - mv else mv))"

text \<open>
  \<open>Number::toString\<close> for a finite value from \<open>10^21\<close> on, which is an integer: the
  shortest digit string that rounds back to the value, the closest one when several of
  that length do, in exponent notation.
\<close>

fun first_some :: "(nat \<Rightarrow> 'a option) \<Rightarrow> nat list \<Rightarrow> 'a option" where
  "first_some f [] = None"
| "first_some f (k # ks) = (case f k of Some v \<Rightarrow> Some v | None \<Rightarrow> first_some f ks)"

definition shortest_at :: "rat \<Rightarrow> nat \<Rightarrow> nat \<Rightarrow> rat option" where
  "shortest_at a n k =
     (let sc = 10 ^ (n - k);
          lo = of_int \<lfloor>a / sc\<rfloor> * sc;
          hi = lo + sc;
          lo_ok = (round_double lo = Fin a);
          hi_ok = (round_double hi = Fin a)
      in if lo_ok \<and> hi_ok then
           Some (if a - lo < hi - a then lo
                 else if hi - a < a - lo then hi
                 else if even \<lfloor>a / sc\<rfloor> then lo else hi)
         else if lo_ok then Some lo
         else if hi_ok then Some hi
         else None)"

definition toString_large :: "rat \<Rightarrow> string" where
  "toString_large a =
     (let n = length (digits (nat \<lfloor>a\<rfloor>));
          v = (case first_some (shortest_at a n) [1 ..< 18] of Some v \<Rightarrow> v | None \<Rightarrow> a);
          ds = digits (nat \<lfloor>v\<rfloor>);
          sig = rev (dropWhile (\<lambda>c. c = CHR ''0'') (rev ds))
      in (if length sig = 1 then sig else hd sig # CHR ''.'' # tl sig)
         @ ''e+'' @ digits (length ds - 1))"

text \<open>
  \<open>x.toFixed(f)\<close>: a RangeError outside 0 to 100 digits; the text of a value that is
  not finite; \<open>Number::toString\<close> from \<open>10^21\<close> on; otherwise the integer \<open>n\<close>
  with \<open>n / 10^f\<close> closest to the value, the larger one of two, with the decimal point
  \<open>f\<close> digits from the right.
\<close>

datatype error = RangeError | TypeError

definition toFixed :: "number \<Rightarrow> nat \<Rightarrow> error + string" where
  "toFixed x f =
     (if 100 < f then Inl RangeError
      else
        case x of
          NaN \<Rightarrow> Inr ''NaN''
        | PosInf \<Rightarrow> Inr ''Infinity''
        | NegInf \<Rightarrow> Inr ''-Infinity''
        | Fin q \<Rightarrow>
            (let s = (if q < 0 then ''-'' else '''');
                 a = \<bar>q\<bar>
             in if 10 ^ 21 \<le> a then Inr (s @ toString_large a)
                else
                  let n = nat \<lfloor>a * 10 ^ f + 1 / 2\<rfloor>;
                      mm = digits n;
                      mz = (if length mm \<le> f then replicate (f + 1 - length mm) CHR ''0'' @ mm else mm)
                  in Inr (s @ (if f = 0 then mz
                       else take (length mz - f) mz @ ''.'' @ drop (length mz - f) mz))))"

text \<open>
  \<open>Array.prototype.sort\<close> with a comparator: the \<open>SortCompare\<close> of the standard
  reads a NaN from the comparator as 0, and the sort is stable. The model inserts the
  elements from the right, each before the first element it does not compare greater
  than.
\<close>

definition SortCompare :: "('a \<Rightarrow> 'a \<Rightarrow> number) \<Rightarrow> 'a \<Rightarrow> 'a \<Rightarrow> number" where
  "SortCompare comparefn x y = (let v = comparefn x y in if v = NaN then Fin 0 else v)"

fun insert_sorted :: "('a \<Rightarrow> 'a \<Rightarrow> number) \<Rightarrow> 'a \<Rightarrow> 'a list \<Rightarrow> 'a list" where
  "insert_sorted comparefn x [] = [x]"
| "insert_sorted comparefn x (y # ys) =
     (if fge (SortCompare comparefn x y) (Fin 0) \<and> SortCompare comparefn x y \<noteq> Fin 0
      then y # insert_sorted comparefn x ys
      else x # y # ys)"

definition array_sort :: "('a \<Rightarrow> 'a \<Rightarrow> number) \<Rightarrow> 'a list \<Rightarrow> 'a list" where
  "array_sort comparefn xs = foldr (insert_sorted comparefn) xs []"

section \<open>The class TurboSpeedFiles\<close>

text \<open>
  The instance holds \<open>availableFiles\<close>; of the page it writes two things, whether the
  loading element is hidden and the content of the files list, kept here as what the
  content says: a card is the formatted size with the token its URL ends in.
\<close>

datatype html =
    Untouched
  | NoFilesMessage
  | FileCards "(string \<times> string) list"
  | ErrorMessage

record TurboSpeedFiles =
  availableFiles :: "string list"
  loadingHidden :: bool
  filesList :: html

definition constructed :: TurboSpeedFiles where
  "constructed = \<lparr>availableFiles = [], loadingHidden = False, filesList = Untouched\<rparr>"

text \<open>\<open>/^(\d+(?:\.\d+)?)(kb|mb|gb)$/\<close>, with \<open>\d\<close> the class of the ten digits.\<close>

definition digit_cls :: regex where
  "digit_cls = Cls ''0123456789''"

definition size_re :: regex where
  "size_re =
     Seq Bol
       (Seq (Grp 1 (Seq (Plus digit_cls) (Opt (Seq (Cls ''.'') (Plus digit_cls)))))
            (Seq (Grp 2 (Alt (Seq (Cls ''k'') (Cls ''b''))
                             (Alt (Seq (Cls ''m'') (Cls ''b''))
                                  (Seq (Cls ''g'') (Cls ''b'')))))
                 Eol))"

text \<open>\<open>/^- ["']?|["']?$/g\<close>, with the class of the two quote characters.\<close>

definition quote_cls :: regex where
  "quote_cls = Cls [CHR 0x22, CHR 0x27]"

definition item_re :: regex where
  "item_re =
     Alt (Seq Bol (Seq (Cls ''-'') (Seq (Cls '' '') (Opt quote_cls))))
         (Seq (Opt quote_cls) Eol)"

text \<open>
  \<open>parseSize\<close>. An unmatched group would be \<open>undefined\<close>, which \<open>parseFloat\<close>
  turns into NaN and the \<open>switch\<close> sends to its default.
\<close>

definition parseSize :: "string \<Rightarrow> number" where
  "parseSize sizeStr =
     (case match sizeStr size_re of
        None \<Rightarrow> Fin 0
      | Some groups \<Rightarrow>
          (let value = groups 1;
               unit = groups 2;
               numValue = (case value of None \<Rightarrow> NaN | Some v \<Rightarrow> parseFloat v)
           in if unit = Some ''kb'' then fmul numValue (Fin 1024)
              else if unit = Some ''mb'' then fmul (fmul numValue (Fin 1024)) (Fin 1024)
              else if unit = Some ''gb'' then
                fmul (fmul (fmul numValue (Fin 1024)) (Fin 1024)) (Fin 1024)
              else Fin 0))"

text \<open>\<open>formatSize\<close>; an exception of \<open>toFixed\<close> would leave it.\<close>

definition formatSize :: "string \<Rightarrow> error + string" where
  "formatSize sizeStr =
     (let sizeBytes = parseSize sizeStr in
      if fge sizeBytes (fmul (fmul (Fin 1024) (Fin 1024)) (Fin 1024)) then
        (case toFixed (fdiv sizeBytes (fmul (fmul (Fin 1024) (Fin 1024)) (Fin 1024))) 1 of
           Inl e \<Rightarrow> Inl e
         | Inr t \<Rightarrow> Inr (replace_str ''.0'' [] t @ '' GB''))
      else if fge sizeBytes (fmul (Fin 1024) (Fin 1024)) then
        (case toFixed (fdiv sizeBytes (fmul (Fin 1024) (Fin 1024))) 0 of
           Inl e \<Rightarrow> Inl e
         | Inr t \<Rightarrow> Inr (t @ '' MB''))
      else
        (case toFixed (fdiv sizeBytes (Fin 1024)) 0 of
           Inl e \<Rightarrow> Inl e
         | Inr t \<Rightarrow> Inr (t @ '' KB'')))"

text \<open>
  The loop of \<open>parseYamlFiles\<close> over the lines, with the flag \<open>inFilesSection\<close> and
  the list being filled; \<open>break\<close> returns the list as it stands.
\<close>

fun scan_lines :: "bool \<Rightarrow> string list \<Rightarrow> string list \<Rightarrow> string list" where
  "scan_lines inFilesSection [] files = files"
| "scan_lines inFilesSection (line # lines) files =
     (let trimmed = trim line in
      if trimmed = ''files:'' then scan_lines True lines files
      else if inFilesSection \<and> startsWith trimmed ''- '' then
        scan_lines inFilesSection lines
          (files @ [toLowerCase (replace_all trimmed item_re [])])
      else if inFilesSection \<and> \<not> startsWith trimmed ''-'' \<and> trimmed \<noteq> [] then files
      else scan_lines inFilesSection lines files)"

definition parseYamlFiles :: "TurboSpeedFiles \<Rightarrow> string \<Rightarrow> TurboSpeedFiles" where
  "parseYamlFiles this yamlText =
     this\<lparr>availableFiles :=
       array_sort (\<lambda>a b. fsub (parseSize a) (parseSize b))
         (scan_lines False (split_nl yamlText) (availableFiles this))\<rparr>"

text \<open>
  \<open>displayFiles\<close> and \<open>showError\<close>, on a page that has the files list element. An
  exception leaves \<open>displayFiles\<close> with the instance as it is at that point.
\<close>

fun cards :: "string list \<Rightarrow> error + (string \<times> string) list" where
  "cards [] = Inr []"
| "cards (size' # rest) =
     (case formatSize size' of
        Inl e \<Rightarrow> Inl e
      | Inr formattedSize \<Rightarrow>
          (case cards rest of
             Inl e \<Rightarrow> Inl e
           | Inr cs \<Rightarrow> Inr ((formattedSize, size') # cs)))"

definition displayFiles :: "TurboSpeedFiles \<Rightarrow> (error \<times> TurboSpeedFiles) + TurboSpeedFiles" where
  "displayFiles this =
     (let this1 = this\<lparr>loadingHidden := True\<rparr> in
      if length (availableFiles this1) = 0 then Inr (this1\<lparr>filesList := NoFilesMessage\<rparr>)
      else
        case cards (availableFiles this1) of
          Inl e \<Rightarrow> Inl (e, this1)
        | Inr filesHtml \<Rightarrow> Inr (this1\<lparr>filesList := FileCards filesHtml\<rparr>))"

definition showError :: "TurboSpeedFiles \<Rightarrow> TurboSpeedFiles" where
  "showError this = this\<lparr>loadingHidden := True, filesList := ErrorMessage\<rparr>"

text \<open>
  \<open>loadAvailableFiles\<close>, given how the two promises settle: \<open>fetch\<close> rejects when the
  request cannot be made and fulfils with a response of any HTTP status otherwise;
  \<open>response.text()\<close> rejects when the body cannot be read.
\<close>

datatype 'a promise = Fulfilled 'a | Rejected

record response =
  status :: nat
  text_of :: "string promise"

definition loadAvailableFiles :: "response promise \<Rightarrow> TurboSpeedFiles \<Rightarrow> TurboSpeedFiles" where
  "loadAvailableFiles fetched this =
     (case fetched of
        Rejected \<Rightarrow> showError this
      | Fulfilled response \<Rightarrow>
          (case text_of response of
             Rejected \<Rightarrow> showError this
           | Fulfilled yamlText \<Rightarrow>
               (case displayFiles (parseYamlFiles this yamlText) of
                  Inl (e, this') \<Rightarrow> showError this'
                | Inr this' \<Rightarrow> this')))"

section \<open>The token grammar and the byte count\<close>

text \<open>
  The words of the specification, to compare the code with: a number is one or more
  digits, optionally followed by a decimal point and one or more digits; a unit is
  \<open>kb\<close>, \<open>mb\<close> or \<open>gb\<close>, with the exponent of 1024 it stands for; a token is a
  number followed by a unit. \<open>number_value\<close> is the rational that the number text
  denotes.
\<close>

definition is_number :: "string \<Rightarrow> bool" where
  "is_number v =
     (let ip = takeWhile is_digit v; r = dropWhile is_digit v
      in ip \<noteq> [] \<and> (r = [] \<or> (hd r = CHR ''.'' \<and> tl r \<noteq> [] \<and> list_all is_digit (tl r))))"

definition unit_exp :: "string \<Rightarrow> nat option" where
  "unit_exp u =
     (if u = ''kb'' then Some 1 else if u = ''mb'' then Some 2
      else if u = ''gb'' then Some 3 else None)"

definition is_token :: "string \<Rightarrow> bool" where
  "is_token s =
     (is_number (take (length s - 2) s) \<and> unit_exp (drop (length s - 2) s) \<noteq> None)"

definition number_value :: "string \<Rightarrow> rat" where
  "number_value v =
     (let ip = takeWhile is_digit v; fp = drop 1 (dropWhile is_digit v)
      in of_nat (dec_value ip) + of_nat (dec_value fp) / 10 ^ length fp)"

text \<open>A number that is not negative: a double from 0 on, or \<open>Infinity\<close>.\<close>

fun nonneg_number :: "number \<Rightarrow> bool" where
  "nonneg_number (Fin q) = (0 \<le> q \<and> is_double q)"
| "nonneg_number PosInf = True"
| "nonneg_number NegInf = False"
| "nonneg_number NaN = False"

text \<open>The product with a power of two: exact, or \<open>Infinity\<close> from \<open>2^1024\<close> on.\<close>

definition times_pow2 :: "number \<Rightarrow> int \<Rightarrow> number" where
  "times_pow2 X k =
     (case X of
        Fin x \<Rightarrow> if x * pow2 k < pow2 1024 then Fin (x * pow2 k) else PosInf
      | _ \<Rightarrow> X)"

text \<open>
  The renderings of the specification: a value rounded to the nearest whole number,
  the half upwards, and a value to one decimal place with a trailing \<open>.0\<close> left out.
\<close>

definition nearest_whole :: "rat \<Rightarrow> nat" where
  "nearest_whole x = nat \<lfloor>x + 1 / 2\<rfloor>"

definition one_decimal :: "rat \<Rightarrow> string" where
  "one_decimal x =
     (let n = nearest_whole (x * 10)
      in digits (n div 10) @ (if n mod 10 = 0 then [] else CHR ''.'' # digits (n mod 10)))"

text \<open>The place of a byte count in the order: \<open>Infinity\<close> above every double.\<close>

fun key_of :: "number \<Rightarrow> rat" where
  "key_of (Fin q) = q"
| "key_of PosInf = pow2 1024"
| "key_of NegInf = 0"
| "key_of NaN = 0"

definition size_key :: "string \<Rightarrow> rat" where
  "size_key t = key_of (parseSize t)"

text \<open>
  The entry of a list item line as the specification words it: the marker is stripped,
  then at most one leading and one trailing quote character, and the result is
  lower-cased.
\<close>

definition is_quote :: "char \<Rightarrow> bool" where
  "is_quote c = (c = CHR 0x22 \<or> c = CHR 0x27)"

definition strip_leading_quote :: "string \<Rightarrow> string" where
  "strip_leading_quote s = (case s of [] \<Rightarrow> [] | c # r \<Rightarrow> if is_quote c then r else s)"

definition strip_trailing_quote :: "string \<Rightarrow> string" where
  "strip_trailing_quote s = (if s \<noteq> [] \<and> is_quote (last s) then butlast s else s)"

definition item_entry :: "string \<Rightarrow> string" where
  "item_entry trimmed = toLowerCase (strip_trailing_quote (strip_leading_quote (drop 2 trimmed)))"

text \<open>
  The entries of a document by its section: the lines after the first marker line up to
  the first line that ends the section, of which the list item lines give one entry
  each. \<open>ends_section\<close> is the test of the code; \<open>ends_stated\<close> ends the section at
  every line that is not blank and is not a list item.
\<close>

definition ends_section :: "string \<Rightarrow> bool" where
  "ends_section t = (t \<noteq> [] \<and> \<not> startsWith t ''-'' \<and> t \<noteq> ''files:'')"

definition ends_stated :: "string \<Rightarrow> bool" where
  "ends_stated t = (t \<noteq> [] \<and> \<not> startsWith t ''- '')"

definition section_entries :: "(string \<Rightarrow> bool) \<Rightarrow> string list \<Rightarrow> string list" where
  "section_entries ends ls =
     (case dropWhile (\<lambda>l. trim l \<noteq> ''files:'') ls of
        [] \<Rightarrow> []
      | marker # sec \<Rightarrow>
          map (\<lambda>l. item_entry (trim l))
            (filter (\<lambda>l. startsWith (trim l) ''- '')
               (takeWhile (\<lambda>l. \<not> ends (trim l)) sec)))"

section \<open>Rounding to a double\<close>

lemma pow2_eval: "pow2 k = (if 0 \<le> k then 2 ^ nat k else 1 / 2 ^ nat (- k))"
  by (simp add: pow2_def power_int_def power_one_over inverse_eq_divide)

lemma pow2_pos [simp]: "0 < pow2 k"
  by (simp add: pow2_def)

lemma pow2_nonneg [simp]: "0 \<le> pow2 k"
  by (simp add: pow2_def)

lemma pow2_neq0 [simp]: "pow2 k \<noteq> 0"
  by (simp add: pow2_def)

lemma pow2_not_neg [simp]: "\<not> pow2 k < 0"
  by (simp add: not_less)

lemma pow2_add: "pow2 (a + b) = pow2 a * pow2 b"
  by (simp add: pow2_def power_int_add)

lemma pow2_diff: "pow2 (a - b) = pow2 a / pow2 b"
  by (simp add: pow2_def power_int_diff)

lemma pow2_0 [simp]: "pow2 0 = 1"
  by (simp add: pow2_def)

lemma pow2_nat: "0 \<le> k \<Longrightarrow> pow2 k = of_int (2 ^ nat k)"
  by (simp add: pow2_def power_int_def)

lemma pow2_le_iff [simp]: "pow2 a \<le> pow2 b \<longleftrightarrow> a \<le> b"
  unfolding pow2_def
  by (metis linorder_not_less one_less_numeral_iff power_int_increasing power_int_strict_increasing
      semiring_norm(76) order.strict_iff_not order_less_imp_le)

lemma pow2_less_iff [simp]: "pow2 a < pow2 b \<longleftrightarrow> a < b"
  by (metis linorder_not_less pow2_le_iff)

lemma ilog2_bounds:
  assumes "0 < q"
  shows "pow2 (ilog2 q) \<le> q \<and> q < pow2 (ilog2 q + 1)"
proof (cases "1 \<le> q")
  case True
  define n where "n = \<lfloor>q\<rfloor>"
  have n: "1 \<le> n" "of_int n \<le> q" "q < of_int (n + 1)"
    using True by (auto simp: n_def le_floor_iff) linarith
  then have pos: "0 < n" by simp
  from bitlen_bounds [OF pos]
  have b: "2 ^ nat (bitlen n - 1) \<le> n" "n < 2 ^ nat (bitlen n)" by simp_all
  have ge1: "1 \<le> bitlen n" using pos by (simp add: bitlen_alt_def)
  have il: "ilog2 q = bitlen n - 1" using True by (simp add: ilog2_def n_def)
  have "pow2 (bitlen n - 1) = of_int (2 ^ nat (bitlen n - 1))"
    using ge1 by (simp add: pow2_nat)
  also have "\<dots> \<le> of_int n" using b(1) by (metis of_int_le_iff)
  finally have lo: "pow2 (ilog2 q) \<le> q" using n(2) il by simp
  have "n + 1 \<le> 2 ^ nat (bitlen n)" using b(2) by simp
  then have "(of_int (n + 1) :: rat) \<le> of_int (2 ^ nat (bitlen n))"
    by (metis of_int_le_iff)
  also have "\<dots> = pow2 (bitlen n)" using ge1 by (simp add: pow2_nat)
  finally have "q < pow2 (ilog2 q + 1)" using n(3) il by simp
  with lo show ?thesis by simp
next
  case False
  define y where "y = 1 / q"
  define c where "c = \<lceil>y\<rceil>"
  have y1: "1 < y" using False assms by (simp add: y_def)
  have c: "of_int (c - 1) < y" "y \<le> of_int c" "2 \<le> c"
    using y1 by (auto simp: c_def) linarith+
  then have pos: "0 < c - 1" by simp
  define k where "k = bitlen (c - 1)"
  from bitlen_bounds [OF pos]
  have b: "2 ^ nat (k - 1) \<le> c - 1" "c - 1 < 2 ^ nat k" by (simp_all add: k_def)
  have ge1: "1 \<le> k" using pos unfolding k_def
    by (metis bitlen_eq_zero_iff bitlen_nonneg linorder_not_less order_le_less zle_add1_eq_le zero_less_one add_0)
  have il: "ilog2 q = - k" using False by (simp add: ilog2_def k_def c_def y_def)
  have "c \<le> 2 ^ nat k" using b(2) by simp
  then have "(of_int c :: rat) \<le> of_int (2 ^ nat k)" by (metis of_int_le_iff)
  also have "\<dots> = pow2 k" using ge1 by (simp add: pow2_nat)
  finally have "y \<le> pow2 k" using c(2) by simp
  then have "1 / pow2 k \<le> q" using assms
    by (simp add: y_def field_simps)
  then have lo: "pow2 (- k) \<le> q"
    using pow2_diff [of 0 k] by simp
  have "pow2 (k - 1) = of_int (2 ^ nat (k - 1))" using ge1 by (simp add: pow2_nat)
  also have "\<dots> \<le> of_int (c - 1)" using b(1) by (metis of_int_le_iff)
  finally have "pow2 (k - 1) < y" using c(1) by simp
  then have "q < 1 / pow2 (k - 1)" using assms
    by (simp add: y_def field_simps)
  then have "q < pow2 (- k + 1)"
    using pow2_diff [of 0 "k - 1"] by simp
  with lo il show ?thesis by simp
qed

lemma ilog2_unique:
  assumes "pow2 e \<le> q" "q < pow2 (e + 1)"
  shows "ilog2 q = e"
proof -
  have q: "0 < q" using assms(1) pow2_pos [of e] by linarith
  note b = ilog2_bounds [OF q]
  have "pow2 e < pow2 (ilog2 q + 1)" using assms(1) b by linarith
  moreover have "pow2 (ilog2 q) < pow2 (e + 1)" using assms(2) b by linarith
  ultimately show ?thesis by simp
qed

lemma round_half_even_of_int [simp]: "round_half_even (of_int n) = n"
  by (simp add: round_half_even_def)

lemma round_half_even_ge: "of_int n \<le> x \<Longrightarrow> n \<le> round_half_even x"
  by (auto simp: round_half_even_def Let_def le_floor_iff) linarith

lemma round_half_even_le: "x \<le> of_int n \<Longrightarrow> round_half_even x \<le> n"
proof -
  assume a: "x \<le> of_int n"
  then have f: "\<lfloor>x\<rfloor> \<le> n" by (simp add: floor_le_iff)
  show ?thesis
  proof (cases "\<lfloor>x\<rfloor> = n")
    case True
    then have "x - of_int \<lfloor>x\<rfloor> \<le> 0" using a by simp
    then show ?thesis using True by (simp add: round_half_even_def Let_def)
  next
    case False
    with f have "\<lfloor>x\<rfloor> + 1 \<le> n" by simp
    then show ?thesis by (auto simp: round_half_even_def Let_def)
  qed
qed

lemma round_double_pos:
  assumes "0 < q"
  shows "round_double q =
    (let r = of_int (round_half_even (q / pow2 (ulp_exp q))) * pow2 (ulp_exp q)
     in if pow2 1024 \<le> r then PosInf else Fin r)"
  using assms by (simp add: round_double_def Let_def)

lemma round_double_neg:
  assumes "q < 0"
  shows "round_double q =
    (let r = of_int (round_half_even (- q / pow2 (ulp_exp (- q)))) * pow2 (ulp_exp (- q))
     in if pow2 1024 \<le> r then NegInf else Fin (- r))"
  using assms by (simp add: round_double_def Let_def)

lemma ulp_exp_le: "0 < q \<Longrightarrow> q < pow2 (e + 1) \<Longrightarrow> ulp_exp q \<le> max (e - 52) (- 1074)"
proof -
  assume q: "0 < q" "q < pow2 (e + 1)"
  have "pow2 (ilog2 q) < pow2 (e + 1)" using ilog2_bounds [OF q(1)] q(2) by linarith
  then show ?thesis by (simp add: ulp_exp_def)
qed

lemma ulp_exp_ge: "- 1074 \<le> ulp_exp q"
  by (simp add: ulp_exp_def)

text \<open>An integer below \<open>2^53\<close> times a power of two from \<open>2^-1074\<close> on is a double, up to the overflow bound.\<close>

lemma representable:
  assumes n: "0 < n" "n < 2 ^ 53" and u: "- 1074 \<le> u"
    and lt: "of_int n * pow2 u < pow2 1024"
  shows "round_double (of_int n * pow2 u) = Fin (of_int n * pow2 u)"
proof -
  define q where "q = of_int n * pow2 u"
  have q: "0 < q" using n by (simp add: q_def)
  have "(of_int n :: rat) < of_int (2 ^ 53)" using n(2) by (metis of_int_less_iff)
  also have "\<dots> = pow2 53" by (simp add: pow2_nat)
  finally have "q < pow2 53 * pow2 u" by (simp add: q_def)
  then have "q < pow2 ((u + 52) + 1)" by (simp add: pow2_add [symmetric] add.commute)
  from ulp_exp_le [OF q this] u have le: "ulp_exp q \<le> u" by simp
  define v where "v = ulp_exp q"
  define d where "d = u - v"
  have d: "0 \<le> d" using le by (simp add: d_def v_def)
  have "pow2 u = pow2 (d + v)" by (simp add: d_def)
  then have qe: "q = of_int n * pow2 d * pow2 v" by (simp add: q_def pow2_add)
  have "q / pow2 v = of_int n * pow2 d" by (simp add: qe)
  also have "\<dots> = of_int (n * 2 ^ nat d)" using d by (simp add: pow2_nat)
  finally have "round_half_even (q / pow2 v) = n * 2 ^ nat d"
    by (simp only: round_half_even_of_int)
  then have "of_int (round_half_even (q / pow2 v)) * pow2 v = of_int n * pow2 d * pow2 v"
    using d by (simp add: pow2_nat)
  then have "of_int (round_half_even (q / pow2 v)) * pow2 v = q" by (simp only: qe)
  then show ?thesis using lt q unfolding q_def [symmetric] v_def
    by (simp add: round_double_pos Let_def)
qed

lemma double_rep:
  assumes "round_double q = Fin r" "0 < q" "r \<noteq> 0"
  shows "\<exists>n u. r = of_int n * pow2 u \<and> 0 < n \<and> n \<le> 2 ^ 53 \<and> - 1074 \<le> u \<and> r < pow2 1024"
proof -
  define u where "u = ulp_exp q"
  define n where "n = round_half_even (q / pow2 u)"
  have r: "r = of_int n * pow2 u" "r < pow2 1024"
    using assms(1,2) by (auto simp: round_double_pos Let_def u_def n_def split: if_splits)
  have "0 \<le> q / pow2 u" using assms(2) by simp
  then have "0 \<le> n" unfolding n_def using round_half_even_ge [of 0] by simp
  with r(1) assms(3) have npos: "0 < n" by (cases "n = 0") simp_all
  have "ilog2 q - 52 \<le> u" by (simp add: u_def ulp_exp_def)
  then have "pow2 (ilog2 q + 1) \<le> pow2 (u + 53)" by simp
  then have "q < pow2 (u + 53)" using ilog2_bounds [OF assms(2)] by linarith
  then have "q < pow2 53 * pow2 u" by (simp add: pow2_add mult.commute)
  then have "q / pow2 u < pow2 53" by (simp add: field_simps)
  also have "\<dots> = of_int (2 ^ 53)" by (simp add: pow2_nat)
  finally have "n \<le> 2 ^ 53" unfolding n_def using round_half_even_le by (meson less_imp_le)
  with r npos show ?thesis using ulp_exp_ge [of q] unfolding u_def by blast
qed

lemma representable_le:
  assumes n: "0 < n" "n \<le> 2 ^ 53" and u: "- 1074 \<le> u"
    and lt: "of_int n * pow2 u < pow2 1024"
  shows "round_double (of_int n * pow2 u) = Fin (of_int n * pow2 u)"
proof (cases "n = 2 ^ 53")
  case False
  with n have "n < 2 ^ 53" by simp
  from representable [OF n(1) this u lt] show ?thesis .
next
  case True
  have "(of_int n :: rat) = of_int (2 ^ 52) * pow2 1" by (simp add: True pow2_eval)
  then have e: "of_int n * pow2 u = of_int (2 ^ 52) * pow2 (u + 1)"
    by (simp add: pow2_add)
  have "round_double (of_int (2 ^ 52) * pow2 (u + 1)) = Fin (of_int (2 ^ 52) * pow2 (u + 1))"
    using u lt unfolding e by (intro representable) simp_all
  then show ?thesis by (simp only: e)
qed

lemma round_double_0 [simp]: "round_double 0 = Fin 0"
  by (simp add: round_double_def)

lemma round_double_minus: "round_double (- q) = fneg (round_double q)"
  by (simp add: round_double_def Let_def)

lemma round_double_idem_pos:
  assumes "round_double q = Fin r" "0 < q"
  shows "round_double r = Fin r"
proof (cases "r = 0")
  case True
  then show ?thesis by simp
next
  case False
  from double_rep [OF assms False] obtain n u where
    "r = of_int n * pow2 u" "0 < n" "n \<le> 2 ^ 53" "- 1074 \<le> u" "r < pow2 1024"
    by blast
  then show ?thesis using representable_le [of n u] by simp
qed

lemma round_double_idem:
  assumes "round_double q = Fin r"
  shows "is_double r"
proof -
  consider "q = 0" | "0 < q" | "q < 0" by linarith
  then show ?thesis
  proof cases
    case 1
    with assms show ?thesis by (simp add: is_double_def)
  next
    case 2
    with assms show ?thesis by (simp add: is_double_def round_double_idem_pos)
  next
    case 3
    have "round_double (- q) = Fin (- r)"
      using assms by (simp add: round_double_minus)
    then have "round_double (- r) = Fin (- r)"
      using 3 round_double_idem_pos [of "- q" "- r"] by simp
    then show ?thesis
      by (cases "round_double r") (simp_all add: round_double_minus is_double_def)
  qed
qed

lemma round_double_nonneg:
  assumes "0 \<le> q" "round_double q = Fin r"
  shows "0 \<le> r"
proof (cases "q = 0")
  case True
  with assms show ?thesis by simp
next
  case False
  with assms have q: "0 < q" by simp
  have "0 \<le> q / pow2 (ulp_exp q)" using q by simp
  then have "0 \<le> round_half_even (q / pow2 (ulp_exp q))"
    using round_half_even_ge [of 0] by simp
  then show ?thesis using assms(2) q
    by (auto simp: round_double_pos Let_def split: if_splits)
qed

lemma round_double_nonneg_cases:
  assumes "0 \<le> q"
  obtains r where "round_double q = Fin r" "0 \<le> r" "is_double r" | "round_double q = PosInf"
proof (cases "round_double q")
  case (Fin r)
  then show ?thesis using that(1) round_double_nonneg [OF assms Fin] round_double_idem [OF Fin] by blast
next
  case PosInf
  then show ?thesis using that(2) by blast
next
  case NegInf
  then show ?thesis using assms by (auto simp: round_double_def Let_def split: if_splits)
next
  case NaN
  then show ?thesis by (auto simp: round_double_def Let_def split: if_splits)
qed

lemma mant_ge:
  assumes "0 < q"
  shows "pow2 (ilog2 q) \<le> of_int (round_half_even (q / pow2 (ulp_exp q))) * pow2 (ulp_exp q) \<or>
         ilog2 q < - 1074"
proof (cases "ilog2 q < - 1074")
  case True
  then show ?thesis by simp
next
  case False
  define u where "u = ulp_exp q"
  define d where "d = ilog2 q - u"
  have d: "0 \<le> d" using False by (auto simp: d_def u_def ulp_exp_def)
  have "pow2 (ilog2 q) = pow2 (d + u)" by (simp add: d_def)
  then have e: "pow2 (ilog2 q) = pow2 d * pow2 u" by (simp add: pow2_add)
  have "pow2 d * pow2 u \<le> q" using ilog2_bounds [OF assms] e by simp
  then have "pow2 d \<le> q / pow2 u" by (simp add: field_simps)
  then have "of_int (2 ^ nat d) \<le> q / pow2 u" using d by (simp add: pow2_nat)
  then have "2 ^ nat d \<le> round_half_even (q / pow2 u)" by (rule round_half_even_ge)
  then have "(of_int (2 ^ nat d) :: rat) \<le> of_int (round_half_even (q / pow2 u))"
    by (metis of_int_le_iff)
  then have "pow2 d \<le> of_int (round_half_even (q / pow2 u))" using d by (simp add: pow2_nat)
  then have "pow2 d * pow2 u \<le> of_int (round_half_even (q / pow2 u)) * pow2 u"
    by (simp add: mult_right_mono)
  then show ?thesis unfolding e u_def by simp
qed

lemma round_double_overflow:
  assumes "pow2 1024 \<le> q"
  shows "round_double q = PosInf"
proof -
  have q: "0 < q" using assms pow2_pos [of 1024] by linarith
  have "pow2 1024 < pow2 (ilog2 q + 1)" using ilog2_bounds [OF q] assms by linarith
  then have "1024 \<le> ilog2 q" by simp
  then have "pow2 1024 \<le> pow2 (ilog2 q)" "\<not> ilog2 q < - 1074" by simp_all
  with mant_ge [OF q] have "pow2 1024 \<le> of_int (round_half_even (q / pow2 (ulp_exp q))) * pow2 (ulp_exp q)"
    by linarith
  then show ?thesis using q by (simp add: round_double_pos Let_def)
qed

lemma round_double_positive:
  assumes "pow2 (- 1074) \<le> q"
  shows "round_double q = PosInf \<or> (\<exists>r. round_double q = Fin r \<and> 0 < r)"
proof -
  have q: "0 < q" using assms pow2_pos [of "- 1074"] by linarith
  have "pow2 (- 1074) < pow2 (ilog2 q + 1)" using ilog2_bounds [OF q] assms by linarith
  then have "\<not> ilog2 q < - 1074" by simp
  with mant_ge [OF q] have "pow2 (ilog2 q) \<le> of_int (round_half_even (q / pow2 (ulp_exp q))) * pow2 (ulp_exp q)"
    by simp
  then have "0 < of_int (round_half_even (q / pow2 (ulp_exp q))) * pow2 (ulp_exp q)"
    using pow2_pos [of "ilog2 q"] by linarith
  then show ?thesis using q by (simp add: round_double_pos Let_def)
qed

lemma double_rep_strict:
  assumes "is_double r" "0 < r"
  shows "\<exists>n u. r = of_int n * pow2 u \<and> 0 < n \<and> n < 2 ^ 53 \<and> - 1074 \<le> u \<and> r < pow2 1024"
proof -
  define u where "u = ulp_exp r"
  define n where "n = round_half_even (r / pow2 u)"
  have rd: "round_double r = Fin r" using assms(1) by (simp add: is_double_def)
  then have r: "r = of_int n * pow2 u" "r < pow2 1024"
    using assms(2) by (auto simp: round_double_pos Let_def u_def n_def split: if_splits)
  have npos: "0 < n" using r(1) assms(2) by (simp add: zero_less_mult_iff)
  have "ilog2 r - 52 \<le> u" by (simp add: u_def ulp_exp_def)
  then have "pow2 (ilog2 r + 1) \<le> pow2 (u + 53)" by simp
  then have "r < pow2 (u + 53)" using ilog2_bounds [OF assms(2)] by linarith
  then have "r < pow2 53 * pow2 u" by (simp add: pow2_add mult.commute)
  then have "r / pow2 u < pow2 53" by (simp add: field_simps)
  moreover have "r / pow2 u = of_int n" using r(1) by simp
  ultimately have "(of_int n :: rat) < of_int (2 ^ 53)" by (simp add: pow2_nat)
  then have "n < 2 ^ 53" by (metis of_int_less_iff)
  with r npos show ?thesis using ulp_exp_ge [of r] unfolding u_def by blast
qed

text \<open>Multiplying a double by a power of two is exact, up to overflow.\<close>

lemma round_double_scale_up:
  assumes "is_double x" "0 \<le> x" "0 \<le> k"
  shows "round_double (x * pow2 k) = (if x * pow2 k < pow2 1024 then Fin (x * pow2 k) else PosInf)"
proof (cases "x = 0")
  case True
  then show ?thesis by simp
next
  case False
  with assms have x: "0 < x" by simp
  from double_rep_strict [OF assms(1) x] obtain n u where
    nu: "x = of_int n * pow2 u" "0 < n" "n < 2 ^ 53" "- 1074 \<le> u"
    by blast
  have e: "x * pow2 k = of_int n * pow2 (u + k)" by (simp add: nu(1) pow2_add)
  show ?thesis
  proof (cases "x * pow2 k < pow2 1024")
    case True
    have "round_double (of_int n * pow2 (u + k)) = Fin (of_int n * pow2 (u + k))"
      using nu assms(3) True unfolding e by (intro representable) simp_all
    with True show ?thesis by (simp only: e) simp
  next
    case False
    then show ?thesis by (simp add: round_double_overflow)
  qed
qed

text \<open>Dividing a double by a power of two is exact while the quotient stays normal.\<close>

lemma round_double_scale_down:
  assumes "is_double x" "0 \<le> k" "pow2 (- 1022) \<le> x / pow2 k"
  shows "round_double (x / pow2 k) = Fin (x / pow2 k)"
proof -
  have "0 < x / pow2 k" using assms(3) pow2_pos [of "- 1022"] by linarith
  then have x: "0 < x" by (simp add: zero_less_divide_iff)
  from double_rep_strict [OF assms(1) x] obtain n u where
    nu: "x = of_int n * pow2 u" "0 < n" "n < 2 ^ 53" "- 1074 \<le> u" "x < pow2 1024"
    by blast
  have e: "x / pow2 k = of_int n * pow2 (u - k)" by (simp add: nu(1) pow2_diff)
  have "(of_int n :: rat) < of_int (2 ^ 53)" using nu(3) by (metis of_int_less_iff)
  then have "(of_int n :: rat) < pow2 53" by (simp add: pow2_nat)
  then have "of_int n * pow2 (u - k) < pow2 53 * pow2 (u - k)" by simp
  then have "pow2 (- 1022) < pow2 (53 + (u - k))" using assms(3) unfolding e pow2_add by linarith
  then have u: "- 1074 \<le> u - k" by simp
  have "x / pow2 k \<le> x" using assms(2) x
    by (simp add: field_simps pow2_nat)
  then have lt: "of_int n * pow2 (u - k) < pow2 1024" using nu(5) unfolding e by linarith
  have "round_double (of_int n * pow2 (u - k)) = Fin (of_int n * pow2 (u - k))"
    using nu(2,3) u lt by (intro representable) simp_all
  then show ?thesis by (simp only: e)
qed

text \<open>Rounding does not cross a power of two.\<close>

lemma round_double_le_pow2:
  assumes "0 \<le> q" "q \<le> pow2 k" "- 1074 \<le> k" "k \<le> 1023"
  shows "\<exists>r. round_double q = Fin r \<and> 0 \<le> r \<and> r \<le> pow2 k"
proof -
  consider "q = 0" | "q = pow2 k" | "0 < q" "q < pow2 k" using assms(1,2) by linarith
  then show ?thesis
  proof cases
    case 1
    then show ?thesis by simp
  next
    case 2
    have "round_double (of_int 1 * pow2 k) = Fin (of_int 1 * pow2 k)"
      using assms(3,4) by (intro representable) simp_all
    then show ?thesis using 2 by simp
  next
    case 3
    define u where "u = ulp_exp q"
    define d where "d = k - u"
    have "pow2 (ilog2 q) < pow2 k" using ilog2_bounds [OF 3(1)] 3(2) by linarith
    then have "ilog2 q < k" by simp
    then have d: "0 \<le> d" using assms(3) by (simp add: d_def u_def ulp_exp_def)
    have "pow2 k = pow2 (d + u)" by (simp add: d_def)
    then have e: "pow2 k = pow2 d * pow2 u" by (simp add: pow2_add)
    have "q / pow2 u \<le> pow2 d" using 3(2) unfolding e by (simp add: field_simps)
    then have "q / pow2 u \<le> of_int (2 ^ nat d)" using d by (simp add: pow2_nat)
    then have "round_half_even (q / pow2 u) \<le> 2 ^ nat d" by (rule round_half_even_le)
    then have "(of_int (round_half_even (q / pow2 u)) :: rat) \<le> of_int (2 ^ nat d)"
      by (metis of_int_le_iff)
    then have "of_int (round_half_even (q / pow2 u)) \<le> pow2 d" using d by (simp add: pow2_nat)
    then have "of_int (round_half_even (q / pow2 u)) * pow2 u \<le> pow2 d * pow2 u"
      by (simp add: mult_right_mono)
    then have le: "of_int (round_half_even (q / pow2 u)) * pow2 u \<le> pow2 k" by (simp only: e)
    moreover have "pow2 k < pow2 1024" using assms(4) by simp
    ultimately have "\<not> pow2 1024 \<le> of_int (round_half_even (q / pow2 u)) * pow2 u"
      by linarith
    then have rd: "round_double q = Fin (of_int (round_half_even (q / pow2 u)) * pow2 u)"
      using 3(1) by (simp add: round_double_pos Let_def u_def)
    from round_double_nonneg [OF assms(1) rd] le rd show ?thesis by simp
  qed
qed

text \<open>Every double is a multiple of the least positive double \<open>2^-1074\<close>.\<close>

lemma double_grid:
  assumes "is_double x" "0 \<le> x"
  shows "\<exists>N::int. x = of_int N * pow2 (- 1074)"
proof (cases "x = 0")
  case True
  then show ?thesis by (intro exI [of _ 0]) simp
next
  case False
  with assms have x: "0 < x" by simp
  from double_rep_strict [OF assms(1) x] obtain n u where
    nu: "x = of_int n * pow2 u" "- 1074 \<le> u"
    by blast
  define d where "d = u + 1074"
  have d: "0 \<le> d" using nu(2) by (simp add: d_def)
  have "pow2 u = pow2 (d + (- 1074))" by (simp add: d_def)
  then have "pow2 u = of_int (2 ^ nat d) * pow2 (- 1074)"
    using d by (simp only: pow2_add pow2_nat)
  then have "x = of_int (n * 2 ^ nat d) * pow2 (- 1074)" by (simp add: nu(1))
  then show ?thesis by blast
qed

lemma double_diff_ge:
  assumes "is_double a" "0 \<le> a" "is_double b" "0 \<le> b" "b < a"
  shows "pow2 (- 1074) \<le> a - b"
proof -
  from double_grid [OF assms(1,2)] obtain A :: int where A: "a = of_int A * pow2 (- 1074)" by blast
  from double_grid [OF assms(3,4)] obtain B :: int where B: "b = of_int B * pow2 (- 1074)" by blast
  have "(of_int B :: rat) < of_int A" using assms(5) unfolding A B by simp
  then have "B < A" by (metis of_int_less_iff)
  then have "1 \<le> A - B" by simp
  then have "(of_int 1 :: rat) \<le> of_int (A - B)" by (metis of_int_le_iff)
  then have "1 * pow2 (- 1074) \<le> of_int (A - B) * pow2 (- 1074)"
    by (intro mult_right_mono) simp_all
  then show ?thesis unfolding A B by (simp add: algebra_simps)
qed

section \<open>What the size pattern matches\<close>

text \<open>The parts of the pattern: the fraction, the number and the unit.\<close>

definition frac_re :: regex where
  "frac_re = Seq (Cls ''.'') (Plus digit_cls)"

definition num_re :: regex where
  "num_re = Seq (Plus digit_cls) (Opt frac_re)"

definition unit_re :: regex where
  "unit_re = Alt (Seq (Cls ''k'') (Cls ''b'')) (Alt (Seq (Cls ''m'') (Cls ''b'')) (Seq (Cls ''g'') (Cls ''b'')))"

text \<open>The end states of \<open>\d*\<close> on a string, longest run first.\<close>

fun digit_ends :: "string \<Rightarrow> string list" where
  "digit_ends [] = [[]]"
| "digit_ends (x # r) = (if is_digit x then digit_ends r @ [x # r] else [x # r])"

lemma matcher_digit:
  "matcher digit_cls n (s, c) =
     (case s of [] \<Rightarrow> [] | x # r \<Rightarrow> if is_digit x then [(r, c)] else [])"
  by (simp add: digit_cls_def is_digit_def split: list.splits)

lemma star_digits:
  "star (matcher digit_cls n) (s, c) = map (\<lambda>r. (r, c)) (digit_ends s)"
proof (induction s)
  case Nil
  show ?case by (subst star.simps) (simp add: matcher_digit)
next
  case (Cons x r)
  then show ?case by (subst star.simps) (simp add: matcher_digit)
qed

lemma plus_digits:
  "matcher (Plus digit_cls) n (s, c) =
     (case s of [] \<Rightarrow> [] | x # r \<Rightarrow> if is_digit x then map (\<lambda>r. (r, c)) (digit_ends r) else [])"
  by (cases s) (simp_all add: matcher_digit star_digits)

lemma digit_ends_iff:
  "r' \<in> set (digit_ends s) \<longleftrightarrow> (\<exists>ds. s = ds @ r' \<and> list_all is_digit ds)"
proof (induction s)
  case Nil
  then show ?case by auto
next
  case (Cons x r)
  show ?case
  proof
    assume "r' \<in> set (digit_ends (x # r))"
    then consider "r' = x # r" | "is_digit x" "r' \<in> set (digit_ends r)"
      by (auto split: if_splits)
    then show "\<exists>ds. x # r = ds @ r' \<and> list_all is_digit ds"
    proof cases
      case 1
      then show ?thesis by (intro exI [of _ "[]"]) simp
    next
      case 2
      with Cons obtain ds where "r = ds @ r'" "list_all is_digit ds" by blast
      with 2(1) show ?thesis by (intro exI [of _ "x # ds"]) simp
    qed
  next
    assume "\<exists>ds. x # r = ds @ r' \<and> list_all is_digit ds"
    then obtain ds where ds: "x # r = ds @ r'" "list_all is_digit ds" by blast
    show "r' \<in> set (digit_ends (x # r))"
    proof (cases ds)
      case Nil
      with ds show ?thesis by auto
    next
      case (Cons y ys)
      with ds have "is_digit x" "r = ys @ r'" "list_all is_digit ys" by auto
      with Cons.IH show ?thesis by auto
    qed
  qed
qed

lemma plus_digits_iff:
  "st \<in> set (matcher (Plus digit_cls) n (s, c)) \<longleftrightarrow>
     (\<exists>ds. ds \<noteq> [] \<and> list_all is_digit ds \<and> s = ds @ fst st \<and> snd st = c)"
proof (cases s)
  case Nil
  then show ?thesis unfolding plus_digits by auto
next
  case (Cons x r)
  show ?thesis
  proof
    assume "st \<in> set (matcher (Plus digit_cls) n (s, c))"
    then have x: "is_digit x" and "fst st \<in> set (digit_ends r)" and c: "snd st = c"
      using Cons unfolding plus_digits by (auto split: if_splits)
    then obtain ds where "r = ds @ fst st" "list_all is_digit ds"
      by (auto simp: digit_ends_iff)
    with x c Cons show "\<exists>ds. ds \<noteq> [] \<and> list_all is_digit ds \<and> s = ds @ fst st \<and> snd st = c"
      by (intro exI [of _ "x # ds"]) simp
  next
    assume "\<exists>ds. ds \<noteq> [] \<and> list_all is_digit ds \<and> s = ds @ fst st \<and> snd st = c"
    then obtain ds where ds: "ds \<noteq> []" "list_all is_digit ds" "s = ds @ fst st" "snd st = c"
      by blast
    then obtain y ys where y: "ds = y # ys" by (cases ds) auto
    with ds Cons have "is_digit x" "r = ys @ fst st" "list_all is_digit ys" by auto
    then have "fst st \<in> set (digit_ends r)" by (auto simp: digit_ends_iff)
    then show "st \<in> set (matcher (Plus digit_cls) n (s, c))"
      using Cons \<open>is_digit x\<close> ds(4) unfolding plus_digits by (cases st) auto
  qed
qed

lemma not_digit_dot [simp]: "\<not> is_digit CHR ''.''"
  by (simp add: is_digit_def)

lemma takeWhile_digits_append:
  "list_all is_digit ds \<Longrightarrow> (r = [] \<or> \<not> is_digit (hd r)) \<Longrightarrow>
     takeWhile is_digit (ds @ r) = ds \<and> dropWhile is_digit (ds @ r) = r"
  by (induction ds) (cases r; auto)+

lemma is_number_iff:
  "is_number v \<longleftrightarrow>
     (\<exists>ds. ds \<noteq> [] \<and> list_all is_digit ds \<and>
        (v = ds \<or> (\<exists>fs. fs \<noteq> [] \<and> list_all is_digit fs \<and> v = ds @ CHR ''.'' # fs)))"
proof
  assume n: "is_number v"
  define ip where "ip = takeWhile is_digit v"
  define r where "r = dropWhile is_digit v"
  have v: "v = ip @ r" by (simp add: ip_def r_def)
  have ip: "ip \<noteq> []" "list_all is_digit ip"
    using n by (auto simp: is_number_def Let_def ip_def list_all_iff dest: set_takeWhileD)
  from n consider "r = []" | "hd r = CHR ''.''" "tl r \<noteq> []" "list_all is_digit (tl r)" "r \<noteq> []"
    by (auto simp: is_number_def Let_def r_def)
  then show "\<exists>ds. ds \<noteq> [] \<and> list_all is_digit ds \<and>
        (v = ds \<or> (\<exists>fs. fs \<noteq> [] \<and> list_all is_digit fs \<and> v = ds @ CHR ''.'' # fs))"
  proof cases
    case 1
    with v ip show ?thesis by auto
  next
    case 2
    then have "r = CHR ''.'' # tl r" by (cases r) auto
    with v ip 2 show ?thesis by metis
  qed
next
  assume "\<exists>ds. ds \<noteq> [] \<and> list_all is_digit ds \<and>
        (v = ds \<or> (\<exists>fs. fs \<noteq> [] \<and> list_all is_digit fs \<and> v = ds @ CHR ''.'' # fs))"
  then obtain ds where ds: "ds \<noteq> []" "list_all is_digit ds"
    and v: "v = ds \<or> (\<exists>fs. fs \<noteq> [] \<and> list_all is_digit fs \<and> v = ds @ CHR ''.'' # fs)"
    by blast
  from v show "is_number v"
  proof
    assume "v = ds"
    moreover have tw: "takeWhile is_digit ds = ds" "dropWhile is_digit ds = []"
      using ds(2) by (simp_all add: list_all_iff)
    ultimately show ?thesis using ds(1)
      by (simp add: is_number_def Let_def tw)
  next
    assume "\<exists>fs. fs \<noteq> [] \<and> list_all is_digit fs \<and> v = ds @ CHR ''.'' # fs"
    then obtain fs where fs: "fs \<noteq> []" "list_all is_digit fs" "v = ds @ CHR ''.'' # fs" by blast
    then show ?thesis using ds takeWhile_digits_append [of ds "CHR ''.'' # fs"]
      by (simp add: is_number_def Let_def)
  qed
qed

lemma in_Seq:
  "st \<in> set (matcher (Seq a b) n st0) \<longleftrightarrow> (\<exists>x \<in> set (matcher a n st0). st \<in> set (matcher b n x))"
  by auto

lemma in_Alt:
  "st \<in> set (matcher (Alt a b) n st0) \<longleftrightarrow>
     st \<in> set (matcher a n st0) \<or> st \<in> set (matcher b n st0)"
  by auto

lemma in_Cls:
  "st \<in> set (matcher (Cls cs) n st0) \<longleftrightarrow>
     (\<exists>x. x \<in> set cs \<and> fst st0 = x # fst st \<and> snd st = snd st0)"
  by (cases "fst st0"; cases st) auto

lemma in_Lit2:
  "st \<in> set (matcher (Seq (Cls [a]) (Cls [b])) n st0) \<longleftrightarrow>
     fst st0 = a # b # fst st \<and> snd st = snd st0"
  unfolding in_Seq in_Cls by (cases st; cases st0) auto

lemma in_frac:
  "st \<in> set (matcher frac_re n (s, c)) \<longleftrightarrow>
     (\<exists>fs. fs \<noteq> [] \<and> list_all is_digit fs \<and> s = CHR ''.'' # fs @ fst st \<and> snd st = c)"
proof -
  have "st \<in> set (matcher frac_re n (s, c)) \<longleftrightarrow>
      (\<exists>r. s = CHR ''.'' # r \<and> st \<in> set (matcher (Plus digit_cls) n (r, c)))"
    unfolding frac_re_def in_Seq by (cases s) auto
  then show ?thesis unfolding plus_digits_iff by auto
qed

lemma in_num:
  "st \<in> set (matcher num_re n (s, c)) \<longleftrightarrow>
     (\<exists>v. is_number v \<and> s = v @ fst st \<and> snd st = c)"
proof
  assume "st \<in> set (matcher num_re n (s, c))"
  then obtain x where x: "x \<in> set (matcher (Plus digit_cls) n (s, c))"
    and st: "st \<in> set (matcher (Opt frac_re) n x)"
    unfolding num_re_def in_Seq by blast
  from x obtain ds where ds: "ds \<noteq> []" "list_all is_digit ds" "s = ds @ fst x" "snd x = c"
    unfolding plus_digits_iff by blast
  from st consider "st = x" | "st \<in> set (matcher frac_re n (fst x, snd x))"
    by auto
  then show "\<exists>v. is_number v \<and> s = v @ fst st \<and> snd st = c"
  proof cases
    case 1
    with ds show ?thesis unfolding is_number_iff by blast
  next
    case 2
    then obtain fs where "fs \<noteq> []" "list_all is_digit fs" "fst x = CHR ''.'' # fs @ fst st" "snd st = snd x"
      unfolding in_frac by blast
    with ds show ?thesis unfolding is_number_iff
      by (intro exI [of _ "ds @ CHR ''.'' # fs"]) auto
  qed
next
  assume "\<exists>v. is_number v \<and> s = v @ fst st \<and> snd st = c"
  then obtain v where v: "is_number v" "s = v @ fst st" "snd st = c" by blast
  from v(1) obtain ds where ds: "ds \<noteq> []" "list_all is_digit ds"
    and c: "v = ds \<or> (\<exists>fs. fs \<noteq> [] \<and> list_all is_digit fs \<and> v = ds @ CHR ''.'' # fs)"
    unfolding is_number_iff by blast
  from c show "st \<in> set (matcher num_re n (s, c))"
  proof
    assume "v = ds"
    with v ds have "st \<in> set (matcher (Plus digit_cls) n (s, c))"
      unfolding plus_digits_iff by blast
    moreover have "st \<in> set (matcher (Opt frac_re) n st)" by simp
    ultimately show ?thesis unfolding num_re_def in_Seq by blast
  next
    assume "\<exists>fs. fs \<noteq> [] \<and> list_all is_digit fs \<and> v = ds @ CHR ''.'' # fs"
    then obtain fs where fs: "fs \<noteq> []" "list_all is_digit fs" "v = ds @ CHR ''.'' # fs" by blast
    define x where "x = (CHR ''.'' # fs @ fst st, c)"
    have "x \<in> set (matcher (Plus digit_cls) n (s, c))"
      unfolding plus_digits_iff using ds fs v by (auto simp: x_def)
    moreover have "st \<in> set (matcher frac_re n x)"
      unfolding x_def in_frac using fs v by auto
    then have "st \<in> set (matcher (Opt frac_re) n x)"
      using fs by (auto simp: x_def in_frac)
    ultimately show ?thesis unfolding num_re_def in_Seq by blast
  qed
qed

lemma unit_exp_iff: "unit_exp u \<noteq> None \<longleftrightarrow> u = ''kb'' \<or> u = ''mb'' \<or> u = ''gb''"
  by (simp add: unit_exp_def)

lemma in_unit:
  "st \<in> set (matcher unit_re n (s, c)) \<longleftrightarrow>
     (\<exists>u. unit_exp u \<noteq> None \<and> s = u @ fst st \<and> snd st = c)"
proof -
  have "(\<exists>u. unit_exp u \<noteq> None \<and> s = u @ fst st \<and> snd st = c) \<longleftrightarrow>
     (s = ''kb'' @ fst st \<or> s = ''mb'' @ fst st \<or> s = ''gb'' @ fst st) \<and> snd st = c"
    unfolding unit_exp_iff by blast
  then show ?thesis
    unfolding unit_re_def in_Alt in_Lit2 by simp blast
qed

lemma in_Grp:
  "st \<in> set (matcher (Grp k a) n st0) \<longleftrightarrow>
     (\<exists>x \<in> set (matcher a n st0).
        st = (fst x, (snd x)(k \<mapsto> take (length (fst st0) - length (fst x)) (fst st0))))"
  by auto

lemma size_re_parts: "size_re = Seq Bol (Seq (Grp 1 num_re) (Seq (Grp 2 unit_re) Eol))"
  by (simp add: size_re_def num_re_def frac_re_def unit_re_def)

lemma matcher_size_re:
  "st \<in> set (matcher size_re n (s, c)) \<longleftrightarrow>
     length s = n \<and>
     (\<exists>v u. is_number v \<and> unit_exp u \<noteq> None \<and> s = v @ u \<and> st = ([], c(1 \<mapsto> v, 2 \<mapsto> u)))"
proof
  assume "st \<in> set (matcher size_re n (s, c))"
  then obtain x y z where x: "x \<in> set (matcher Bol n (s, c))"
    and y: "y \<in> set (matcher (Grp 1 num_re) n x)"
    and z: "z \<in> set (matcher (Grp 2 unit_re) n y)"
    and st: "st \<in> set (matcher Eol n z)"
    unfolding size_re_parts in_Seq by blast
  from x have x': "x = (s, c)" and len: "length s = n" by (auto split: if_splits)
  from y obtain y0 where y0: "y0 \<in> set (matcher num_re n (s, c))"
    and ye: "y = (fst y0, (snd y0)(1 \<mapsto> take (length s - length (fst y0)) s))"
    unfolding in_Grp x' fst_conv snd_conv by blast
  from y0 obtain v where v: "is_number v" "s = v @ fst y0" "snd y0 = c"
    unfolding in_num by blast
  have y': "y = (fst y0, c(1 \<mapsto> v))" using ye v by simp
  from z obtain z0 where z0: "z0 \<in> set (matcher unit_re n (fst y0, c(1 \<mapsto> v)))"
    and ze: "z = (fst z0, (snd z0)(2 \<mapsto> take (length (fst y0) - length (fst z0)) (fst y0)))"
    unfolding in_Grp y' fst_conv snd_conv by blast
  from z0 obtain u where u: "unit_exp u \<noteq> None" "fst y0 = u @ fst z0" "snd z0 = c(1 \<mapsto> v)"
    unfolding in_unit by blast
  have z': "z = (fst z0, c(1 \<mapsto> v, 2 \<mapsto> u))" using ze u by simp
  from st have "fst z0 = []" "st = z" unfolding z' by (auto split: if_splits)
  with z' u v len show "length s = n \<and>
     (\<exists>v u. is_number v \<and> unit_exp u \<noteq> None \<and> s = v @ u \<and> st = ([], c(1 \<mapsto> v, 2 \<mapsto> u)))"
    by auto
next
  assume "length s = n \<and>
     (\<exists>v u. is_number v \<and> unit_exp u \<noteq> None \<and> s = v @ u \<and> st = ([], c(1 \<mapsto> v, 2 \<mapsto> u)))"
  then obtain v u where n: "length s = n" and v: "is_number v" and u: "unit_exp u \<noteq> None"
    and s: "s = v @ u" and st: "st = ([], c(1 \<mapsto> v, 2 \<mapsto> u))"
    by blast
  have 1: "(s, c) \<in> set (matcher Bol n (s, c))" using n by simp
  have "(u, c) \<in> set (matcher num_re n (s, c))" unfolding in_num using v s by auto
  then have 2: "(u, c(1 \<mapsto> v)) \<in> set (matcher (Grp 1 num_re) n (s, c))"
    unfolding in_Grp using s by force
  have "([], c(1 \<mapsto> v)) \<in> set (matcher unit_re n (u, c(1 \<mapsto> v)))"
    unfolding in_unit using u by auto
  then have 3: "([], c(1 \<mapsto> v, 2 \<mapsto> u)) \<in> set (matcher (Grp 2 unit_re) n (u, c(1 \<mapsto> v)))"
    unfolding in_Grp by force
  have 4: "st \<in> set (matcher Eol n ([], c(1 \<mapsto> v, 2 \<mapsto> u)))" using st by simp
  from 1 2 3 4 show "st \<in> set (matcher size_re n (s, c))"
    unfolding size_re_parts in_Seq by blast
qed

lemma unit_length: "unit_exp u \<noteq> None \<Longrightarrow> length u = 2"
  unfolding unit_exp_iff by auto

lemma is_token_iff:
  "is_token s \<longleftrightarrow> (\<exists>v u. is_number v \<and> unit_exp u \<noteq> None \<and> s = v @ u)"
proof
  assume "is_token s"
  then have "is_number (take (length s - 2) s)" "unit_exp (drop (length s - 2) s) \<noteq> None"
    by (simp_all add: is_token_def)
  moreover have "s = take (length s - 2) s @ drop (length s - 2) s" by simp
  ultimately show "\<exists>v u. is_number v \<and> unit_exp u \<noteq> None \<and> s = v @ u" by blast
next
  assume "\<exists>v u. is_number v \<and> unit_exp u \<noteq> None \<and> s = v @ u"
  then obtain v u where "is_number v" "unit_exp u \<noteq> None" "s = v @ u" by blast
  then show "is_token s" using unit_length [of u] by (simp add: is_token_def)
qed

lemma search_size_re_short: "length r < n \<Longrightarrow> search size_re n r = None"
proof (induction r)
  case Nil
  then have "\<And>st. st \<notin> set (matcher size_re n ([], Map.empty))"
    unfolding matcher_size_re by simp
  then have "matcher size_re n ([], Map.empty) = []"
    by (cases "matcher size_re n ([], Map.empty)") auto
  then show ?case by (subst search.simps) simp
next
  case (Cons x r)
  then have "\<And>st. st \<notin> set (matcher size_re n (x # r, Map.empty))"
    unfolding matcher_size_re by simp
  then have "matcher size_re n (x # r, Map.empty) = []"
    by (cases "matcher size_re n (x # r, Map.empty)") auto
  then show ?case using Cons by (subst search.simps) simp
qed

lemma match_size_re:
  "match s size_re =
     (if is_token s
      then Some [1 \<mapsto> take (length s - 2) s, 2 \<mapsto> drop (length s - 2) s, 0 \<mapsto> s]
      else None)"
proof (cases "is_token s")
  case True
  then obtain v u where vu: "is_number v" "unit_exp u \<noteq> None" "s = v @ u"
    unfolding is_token_iff by blast
  have parts: "take (length s - 2) s = v" "drop (length s - 2) s = u"
    using vu unit_length [of u] by simp_all
  define x :: mstate where "x = ([], [1 \<mapsto> v, 2 \<mapsto> u])"
  have all: "\<And>st. st \<in> set (matcher size_re (length s) (s, Map.empty)) \<Longrightarrow> st = x"
  proof -
    fix st assume "st \<in> set (matcher size_re (length s) (s, Map.empty))"
    then obtain v' u' where "is_number v'" "unit_exp u' \<noteq> None" "s = v' @ u'"
      "st = ([], [1 \<mapsto> v', 2 \<mapsto> u'])"
      unfolding matcher_size_re by blast
    moreover from this have "v' = v" "u' = u" using vu unit_length [of u] unit_length [of u'] by auto
    ultimately show "st = x" by (simp add: x_def)
  qed
  have "x \<in> set (matcher size_re (length s) (s, Map.empty))"
    unfolding matcher_size_re x_def using vu by blast
  then obtain y ys where ys: "matcher size_re (length s) (s, Map.empty) = y # ys"
    by (cases "matcher size_re (length s) (s, Map.empty)") auto
  then have "y = x" using all [of y] by simp
  with ys have "search size_re (length s) s = Some (s, x)"
    by (subst search.simps) simp
  then show ?thesis using True parts by (simp add: match_def exec_def x_def)
next
  case False
  then have "\<And>st. st \<notin> set (matcher size_re (length s) (s, Map.empty))"
    unfolding matcher_size_re is_token_iff by blast
  then have m: "matcher size_re (length s) (s, Map.empty) = []"
    by (cases "matcher size_re (length s) (s, Map.empty)") auto
  have "search size_re (length s) s = None"
  proof (cases s)
    case Nil
    with m show ?thesis by (subst search.simps) simp
  next
    case (Cons a r)
    then have "search size_re (length s) r = None" by (intro search_size_re_short) simp
    with m Cons show ?thesis by (subst search.simps) simp
  qed
  then show ?thesis using False by (simp add: match_def exec_def)
qed

lemma digit_not_ws: "is_digit x \<Longrightarrow> \<not> is_ws x"
  by (auto simp: is_digit_def is_ws_def)

lemma digit_not_sign: "is_digit x \<Longrightarrow> x \<noteq> CHR ''-'' \<and> x \<noteq> CHR ''+'' \<and> x \<noteq> CHR ''I''"
  by (auto simp: is_digit_def)

lemma parseFloat_digits_first:
  assumes "is_digit x"
  shows "parseFloat (x # r) =
    (let t = x # r; ip = takeWhile is_digit t; r1 = dropWhile is_digit t;
         dot = startsWith r1 ''.'';
         fp = (if dot then takeWhile is_digit (tl r1) else []);
         r2 = (if dot then dropWhile is_digit (tl r1) else r1)
     in round_double ((of_nat (dec_value ip) + of_nat (dec_value fp) / 10 ^ length fp)
                           * 10 powi exponent_part r2))"
  using assms digit_not_ws [OF assms] digit_not_sign [OF assms]
  by (simp add: parseFloat_def startsWith_def Let_def)

lemma parseFloat_number:
  assumes "is_number v"
  shows "parseFloat v = round_double (number_value v)"
proof -
  from assms obtain ds where ds: "ds \<noteq> []" "list_all is_digit ds"
    and c: "v = ds \<or> (\<exists>fs. fs \<noteq> [] \<and> list_all is_digit fs \<and> v = ds @ CHR ''.'' # fs)"
    unfolding is_number_iff by blast
  from ds obtain x r where xr: "ds = x # r" "is_digit x" by (cases ds) auto
  from c show ?thesis
  proof
    assume v: "v = ds"
    have tw: "takeWhile is_digit v = ds" "dropWhile is_digit v = []"
      using ds(2) v by (simp_all add: list_all_iff)
    have "parseFloat v = round_double (of_nat (dec_value ds))"
      using parseFloat_digits_first [OF xr(2), of r] tw unfolding v xr(1)
      by (simp add: Let_def startsWith_def exponent_part_def dec_value_def)
    then show ?thesis by (simp add: number_value_def tw dec_value_def)
  next
    assume "\<exists>fs. fs \<noteq> [] \<and> list_all is_digit fs \<and> v = ds @ CHR ''.'' # fs"
    then obtain fs where fs: "fs \<noteq> []" "list_all is_digit fs" "v = ds @ CHR ''.'' # fs" by blast
    have tw: "takeWhile is_digit v = ds" "dropWhile is_digit v = CHR ''.'' # fs"
      using takeWhile_digits_append [of ds "CHR ''.'' # fs"] ds(2) fs(3) by simp_all
    have tf: "takeWhile is_digit fs = fs" "dropWhile is_digit fs = []"
      using fs(2) by (simp_all add: list_all_iff)
    have "parseFloat v = round_double (of_nat (dec_value ds) + of_nat (dec_value fs) / 10 ^ length fs)"
      using parseFloat_digits_first [OF xr(2), of "r @ CHR ''.'' # fs"] tw
      unfolding fs(3) xr(1)
      by (simp add: Let_def startsWith_def exponent_part_def tf)
    then show ?thesis by (simp add: number_value_def tw)
  qed
qed

lemma number_value_nonneg: "0 \<le> number_value v"
  by (simp add: number_value_def Let_def)

lemma nonneg_round_double: "0 \<le> q \<Longrightarrow> nonneg_number (round_double q)"
  by (erule round_double_nonneg_cases) simp_all

lemma fmul_pow2:
  assumes "nonneg_number X" "0 \<le> k"
  shows "fmul X (Fin (pow2 k)) = times_pow2 X k"
proof (cases X)
  case (Fin x)
  with assms show ?thesis by (simp add: times_pow2_def round_double_scale_up)
next
  case PosInf
  then show ?thesis by (simp add: times_pow2_def)
qed (use assms in simp_all)

lemma nonneg_times_pow2:
  assumes "nonneg_number X" "0 \<le> k"
  shows "nonneg_number (times_pow2 X k)"
proof (cases X)
  case (Fin x)
  with assms have x: "is_double x" "0 \<le> x" by simp_all
  show ?thesis
  proof (cases "x * pow2 k < pow2 1024")
    case True
    then have "round_double (x * pow2 k) = Fin (x * pow2 k)"
      using round_double_scale_up [OF x assms(2)] by simp
    then show ?thesis using Fin True x by (simp add: times_pow2_def is_double_def)
  next
    case False
    then show ?thesis using Fin by (simp add: times_pow2_def)
  qed
qed (use assms in \<open>simp_all add: times_pow2_def\<close>)

lemma times_pow2_add:
  assumes "nonneg_number X" "0 \<le> j" "0 \<le> k"
  shows "times_pow2 (times_pow2 X j) k = times_pow2 X (j + k)"
proof (cases X)
  case (Fin x)
  with assms have x: "0 \<le> x" by simp
  have "pow2 0 \<le> pow2 k" using assms(3) by (simp only: pow2_le_iff)
  then have "x * pow2 j * 1 \<le> x * pow2 j * pow2 k"
    using x by (intro mult_left_mono) simp_all
  then have le: "x * pow2 j \<le> x * pow2 j * pow2 k" by simp
  show ?thesis using Fin le
    by (auto simp: times_pow2_def pow2_add mult.assoc)
qed (simp_all add: times_pow2_def)

lemma fmul_1024: "nonneg_number X \<Longrightarrow> fmul X (Fin 1024) = times_pow2 X 10"
  using fmul_pow2 [of X 10] by (simp add: pow2_eval)

lemma pow_1024: "(1024::rat) ^ k = pow2 (10 * int k)"
proof -
  have "(1024::rat) = 2 ^ 10" by simp
  then have "(1024::rat) ^ k = 2 ^ (10 * k)" by (simp only: power_mult)
  also have "\<dots> = pow2 (int (10 * k))" unfolding pow2_def by (simp only: power_int_of_nat)
  finally show ?thesis by simp
qed

lemma parseSize_match:
  assumes "is_number v" "unit_exp u \<noteq> None"
  shows "match (v @ u) size_re = Some [1 \<mapsto> v, 2 \<mapsto> u, 0 \<mapsto> v @ u]"
proof -
  have "is_token (v @ u)" unfolding is_token_iff using assms by blast
  moreover have "take (length (v @ u) - 2) (v @ u) = v" "drop (length (v @ u) - 2) (v @ u) = u"
    using unit_length [OF assms(2)] by simp_all
  ultimately show ?thesis by (simp add: match_size_re)
qed

lemma parseSize_number_unit:
  assumes "is_number v" "unit_exp u = Some k"
  shows "parseSize (v @ u) = times_pow2 (round_double (number_value v)) (10 * int k)"
proof -
  define X where "X = round_double (number_value v)"
  have X: "nonneg_number X" unfolding X_def by (intro nonneg_round_double number_value_nonneg)
  have m: "match (v @ u) size_re = Some [1 \<mapsto> v, 2 \<mapsto> u, 0 \<mapsto> v @ u]"
    using assms by (intro parseSize_match) simp_all
  have pf: "parseFloat v = X" unfolding X_def by (rule parseFloat_number) fact
  have 1: "fmul X (Fin 1024) = times_pow2 X 10" by (rule fmul_1024) fact
  have X1: "nonneg_number (times_pow2 X 10)" using X by (intro nonneg_times_pow2) simp_all
  have 2: "fmul (times_pow2 X 10) (Fin 1024) = times_pow2 X 20"
    using fmul_1024 [OF X1] times_pow2_add [OF X, of 10 10] by simp
  have X2: "nonneg_number (times_pow2 X 20)" using X by (intro nonneg_times_pow2) simp_all
  have 3: "fmul (times_pow2 X 20) (Fin 1024) = times_pow2 X 30"
    using fmul_1024 [OF X2] times_pow2_add [OF X, of 20 10] by simp
  from assms(2) consider "u = ''kb''" "k = 1" | "u = ''mb''" "k = 2" | "u = ''gb''" "k = 3"
    by (auto simp: unit_exp_def split: if_splits)
  then show ?thesis
  proof cases
    case 1
    then show ?thesis using m pf \<open>fmul X (Fin 1024) = times_pow2 X 10\<close>
      unfolding X_def [symmetric] by (simp add: parseSize_def)
  next
    case 2
    then show ?thesis using m pf \<open>fmul X (Fin 1024) = times_pow2 X 10\<close>
        \<open>fmul (times_pow2 X 10) (Fin 1024) = times_pow2 X 20\<close>
      unfolding X_def [symmetric] by (simp add: parseSize_def)
  next
    case 3
    then show ?thesis using m pf \<open>fmul X (Fin 1024) = times_pow2 X 10\<close>
        \<open>fmul (times_pow2 X 10) (Fin 1024) = times_pow2 X 20\<close>
        \<open>fmul (times_pow2 X 20) (Fin 1024) = times_pow2 X 30\<close>
      unfolding X_def [symmetric] by (simp add: parseSize_def)
  qed
qed

lemma parseSize_product:
  assumes "is_number v" "unit_exp u = Some k"
  shows "parseSize (v @ u) = fmul (round_double (number_value v)) (Fin (1024 ^ k))"
proof -
  have "nonneg_number (round_double (number_value v))"
    by (intro nonneg_round_double number_value_nonneg)
  then have "fmul (round_double (number_value v)) (Fin (pow2 (10 * int k))) =
      times_pow2 (round_double (number_value v)) (10 * int k)"
    by (intro fmul_pow2) simp_all
  then show ?thesis using parseSize_number_unit [OF assms] by (simp add: pow_1024)
qed

lemma parseSize_exact:
  assumes "is_number v" "unit_exp u = Some k"
    and "is_double (number_value v)" "number_value v * 1024 ^ k < pow2 1024"
  shows "parseSize (v @ u) = Fin (number_value v * 1024 ^ k)"
  using parseSize_number_unit [OF assms(1,2)] assms(3,4)
  by (simp add: is_double_def times_pow2_def pow_1024)

lemma three_halves: "is_double (3 / 2)"
proof -
  have "round_double (of_int 3 * pow2 (- 1)) = Fin (of_int 3 * pow2 (- 1))"
    by (rule representable) (simp_all add: pow2_eval)
  then show ?thesis by (simp add: is_double_def pow2_eval)
qed

lemma ex_15gb: "parseSize ''1.5gb'' = Fin 1610612736"
proof -
  have n: "is_number ''1.5''" by (simp add: is_number_def is_digit_def)
  have u: "unit_exp ''gb'' = Some 3" by (simp add: unit_exp_def)
  have v: "number_value ''1.5'' = 3 / 2"
    by (simp add: number_value_def is_digit_def dec_value_def digit_val_def)
  have "parseSize (''1.5'' @ ''gb'') = Fin (number_value ''1.5'' * 1024 ^ 3)"
    using n u by (rule parseSize_exact) (simp_all add: v three_halves pow2_eval)
  then show ?thesis by (simp add: v)
qed

section \<open>Formatting\<close>

lemma digits_lt10: "n < 10 \<Longrightarrow> digits n = [digit_char n]"
  by (subst digits.simps) simp

lemma digits_ge10: "10 \<le> n \<Longrightarrow> digits n = digits (n div 10) @ [digit_char (n mod 10)]"
  by (subst digits.simps) simp

lemma digits_nonempty: "digits n \<noteq> []"
  by (subst digits.simps) simp

lemma digit_char_is_digit: "d < 10 \<Longrightarrow> is_digit (digit_char d)"
proof -
  assume "d < 10"
  then have "d \<in> {0, 1, 2, 3, 4, 5, 6, 7, 8, 9}" by auto
  then show ?thesis by (auto simp: is_digit_def digit_char_def char_of_eq_iff)
qed

lemma digit_char_zero: "d < 10 \<Longrightarrow> digit_char d = CHR ''0'' \<longleftrightarrow> d = 0"
proof -
  assume "d < 10"
  then have "d \<in> {0, 1, 2, 3, 4, 5, 6, 7, 8, 9}" by auto
  then show ?thesis by (auto simp: digit_char_def char_of_eq_iff)
qed

lemma digit_char_0 [simp]: "digit_char 0 = CHR ''0''"
  by (simp add: digit_char_def char_of_eq_iff)

lemma digits_all_digits: "list_all is_digit (digits n)"
proof (induction n rule: digits.induct)
  case (1 n)
  show ?case
  proof (cases "n < 10")
    case True
    then show ?thesis by (simp add: digits_lt10 digit_char_is_digit)
  next
    case False
    then have "list_all is_digit (digits (n div 10))" using 1 by simp
    then show ?thesis using False by (simp add: digits_ge10 digit_char_is_digit)
  qed
qed

lemma toFixed_0:
  assumes "0 \<le> q" "q < 10 ^ 21"
  shows "toFixed (Fin q) 0 = Inr (digits (nearest_whole q))"
  using assms digits_nonempty [of "nat \<lfloor>q + 1 / 2\<rfloor>"]
  by (simp add: toFixed_def nearest_whole_def Let_def)

lemma toFixed_1:
  assumes "0 \<le> q" "q < 10 ^ 21"
  shows "toFixed (Fin q) 1 =
    Inr (digits (nearest_whole (q * 10) div 10) @ ''.'' @ [digit_char (nearest_whole (q * 10) mod 10)])"
proof -
  define n where "n = nearest_whole (q * 10)"
  have tf: "toFixed (Fin q) 1 =
    Inr (let mm = digits n;
             mz = (if length mm \<le> 1 then replicate (2 - length mm) CHR ''0'' @ mm else mm)
         in take (length mz - 1) mz @ ''.'' @ drop (length mz - 1) mz)"
    using assms by (simp add: toFixed_def n_def nearest_whole_def Let_def)
  show ?thesis
  proof (cases "n < 10")
    case True
    then show ?thesis unfolding tf n_def [symmetric]
      by (simp add: digits_lt10 Let_def)
  next
    case False
    then have d: "digits n = digits (n div 10) @ [digit_char (n mod 10)]"
      by (simp add: digits_ge10)
    have "digits (n div 10) \<noteq> []" by (rule digits_nonempty)
    then show ?thesis unfolding tf n_def [symmetric] d
      by (simp add: Let_def)
  qed
qed

lemma replace_dot0:
  assumes "list_all is_digit A"
  shows "replace_str ''.0'' [] (A @ ''.'' @ [d]) = (if d = CHR ''0'' then A else A @ ''.'' @ [d])"
  using assms
proof (induction A)
  case Nil
  show ?case by (simp add: startsWith_def)
next
  case (Cons a A)
  then have "a \<noteq> CHR ''.''" by auto
  then show ?case using Cons by (simp add: startsWith_def)
qed

lemma one_decimal_toFixed:
  assumes "0 \<le> q" "q < 10 ^ 21"
  shows "(case toFixed (Fin q) 1 of Inl e \<Rightarrow> Inl e | Inr t \<Rightarrow> Inr (replace_str ''.0'' [] t @ sfx))
     = Inr (one_decimal q @ sfx)"
proof -
  define n where "n = nearest_whole (q * 10)"
  have m: "n mod 10 < 10" by simp
  have "replace_str ''.0'' [] (digits (n div 10) @ ''.'' @ [digit_char (n mod 10)]) =
     digits (n div 10) @ (if n mod 10 = 0 then [] else CHR ''.'' # digits (n mod 10))"
    using replace_dot0 [OF digits_all_digits, of "n div 10" "digit_char (n mod 10)"]
      digit_char_zero [OF m] digits_lt10 [OF m]
    by simp
  then show ?thesis using toFixed_1 [OF assms]
    by (simp add: one_decimal_def n_def Let_def)
qed

declare fmul.simps(1) [simp del] fdiv.simps(1) [simp del] fsub.simps(1) [simp del]

lemma nearest_whole_small: "0 \<le> x \<Longrightarrow> x < 1 / 2 \<Longrightarrow> nearest_whole x = 0"
  by (simp add: nearest_whole_def floor_eq_iff)

lemma is_double_1: "is_double 1"
proof -
  have "round_double (of_int 1 * pow2 0) = Fin (of_int 1 * pow2 0)"
    by (rule representable) (simp_all add: pow2_eval)
  then show ?thesis by (simp add: is_double_def)
qed

lemma is_double_0: "is_double 0"
  by (simp add: is_double_def)

lemma const_1024: "times_pow2 (Fin 1) 10 = Fin 1024"
  by (simp add: times_pow2_def pow2_eval)

lemma const_mib: "fmul (Fin 1024) (Fin 1024) = Fin (pow2 20)"
proof -
  have n: "nonneg_number (Fin 1)" by (simp add: is_double_1)
  have "fmul (times_pow2 (Fin 1) 10) (Fin 1024) = times_pow2 (times_pow2 (Fin 1) 10) 10"
    using n by (intro fmul_1024 nonneg_times_pow2) simp_all
  also have "\<dots> = times_pow2 (Fin 1) 20" using times_pow2_add [OF n, of 10 10] by simp
  also have "\<dots> = Fin (pow2 20)" by (simp add: times_pow2_def)
  finally show ?thesis by (simp only: const_1024)
qed

lemma const_gib: "fmul (fmul (Fin 1024) (Fin 1024)) (Fin 1024) = Fin (pow2 30)"
proof -
  have n: "nonneg_number (Fin 1)" by (simp add: is_double_1)
  have e: "Fin (pow2 20) = times_pow2 (Fin 1) 20" by (simp add: times_pow2_def)
  have "fmul (times_pow2 (Fin 1) 20) (Fin 1024) = times_pow2 (times_pow2 (Fin 1) 20) 10"
    using n by (intro fmul_1024 nonneg_times_pow2) simp_all
  also have "\<dots> = times_pow2 (Fin 1) 30" using times_pow2_add [OF n, of 20 10] by simp
  also have "\<dots> = Fin (pow2 30)" by (simp add: times_pow2_def)
  finally show ?thesis by (simp only: const_mib e)
qed

lemma const_gib': "fmul (Fin (pow2 20)) (Fin 1024) = Fin (pow2 30)"
  using const_gib by (simp only: const_mib)

lemmas format_consts = const_gib const_gib' const_mib

lemma parseSize_nonneg: "nonneg_number (parseSize s)"
proof (cases "is_token s")
  case True
  then obtain v u where vu: "is_number v" "unit_exp u \<noteq> None" "s = v @ u"
    unfolding is_token_iff by blast
  then obtain k where k: "unit_exp u = Some k" by auto
  have "nonneg_number (times_pow2 (round_double (number_value v)) (10 * int k))"
    by (intro nonneg_times_pow2 nonneg_round_double number_value_nonneg) simp
  then show ?thesis using parseSize_number_unit [OF vu(1) k] vu(3) by simp
next
  case False
  then show ?thesis by (simp add: parseSize_def match_size_re is_double_0)
qed

lemma fdiv_pow2_exact:
  assumes "is_double b" "0 \<le> k" "pow2 k \<le> b"
  shows "fdiv (Fin b) (Fin (pow2 k)) = Fin (b / pow2 k)"
proof -
  have "1 \<le> b / pow2 k" using assms(3) by (simp add: field_simps)
  moreover have "pow2 (- 1022) \<le> pow2 0" by (simp only: pow2_le_iff)
  ultimately have "pow2 (- 1022) \<le> b / pow2 k" by (simp only: pow2_0)
  from round_double_scale_down [OF assms(1,2) this] show ?thesis by (simp add: fdiv.simps)
qed

text \<open>
  A quotient by a power of two that falls below the normal range may be rounded, but
  then it and the rounded value are both at most \<open>2^-1022\<close>.
\<close>

lemma fdiv_pow2_whole:
  assumes "is_double b" "0 \<le> b" "0 \<le> k"
  shows "\<exists>r. fdiv (Fin b) (Fin (pow2 k)) = Fin r \<and> 0 \<le> r \<and> r \<le> max (b / pow2 k) (pow2 (- 1022))
     \<and> nearest_whole r = nearest_whole (b / pow2 k)"
proof (cases "pow2 (- 1022) \<le> b / pow2 k")
  case True
  from round_double_scale_down [OF assms(1,3) this] assms(2) show ?thesis by (simp add: fdiv.simps)
next
  case False
  then have le: "b / pow2 k \<le> pow2 (- 1022)" by simp
  have "0 \<le> b / pow2 k" using assms(2) by simp
  from round_double_le_pow2 [OF this le] obtain r where
    r: "round_double (b / pow2 k) = Fin r" "0 \<le> r" "r \<le> pow2 (- 1022)" by auto
  have small: "pow2 (- 1022) < 1 / 2"
  proof -
    have "pow2 (- 1022) < pow2 (- 1)" by (simp only: pow2_less_iff)
    then show ?thesis by (simp add: pow2_eval)
  qed
  have lt: "r < 1 / 2" "b / pow2 k < 1 / 2" using r(3) le small by linarith+
  have "nearest_whole r = 0" "nearest_whole (b / pow2 k) = 0"
    using nearest_whole_small [OF r(2) lt(1)] nearest_whole_small [OF \<open>0 \<le> b / pow2 k\<close> lt(2)]
    by blast+
  then show ?thesis using r le by (simp add: max_def fdiv.simps)
qed

lemma formatSize_Inf:
  assumes "parseSize s = PosInf"
  shows "formatSize s = Inr ''Infinity GB''"
  using assms by (simp add: formatSize_def format_consts toFixed_def startsWith_def Let_def fdiv.simps)

lemma formatSize_GB:
  assumes "parseSize s = Fin b" "pow2 30 \<le> b" "b / pow2 30 < 10 ^ 21"
  shows "formatSize s = Inr (one_decimal (b / pow2 30) @ '' GB'')"
proof -
  have b: "is_double b" "0 \<le> b" using parseSize_nonneg [of s] assms(1) by simp_all
  have d: "fdiv (Fin b) (Fin (pow2 30)) = Fin (b / pow2 30)"
    using b(1) assms(2) by (intro fdiv_pow2_exact) simp_all
  have "0 \<le> b / pow2 30" using b(2) by simp
  from one_decimal_toFixed [OF this assms(3)] show ?thesis
    using assms(1,2) by (simp add: formatSize_def format_consts d Let_def)
qed

lemma formatSize_huge:
  assumes "parseSize s = Fin b" "10 ^ 21 \<le> b / pow2 30"
  shows "formatSize s = Inr (replace_str ''.0'' [] (toString_large (b / pow2 30)) @ '' GB'')"
proof -
  have b: "is_double b" "0 \<le> b" using parseSize_nonneg [of s] assms(1) by simp_all
  have "(1::rat) \<le> 10 ^ 21" by simp
  then have one: "1 \<le> b / pow2 30" using assms(2) by linarith
  then have ge: "pow2 30 \<le> b" by (simp add: field_simps)
  have d: "fdiv (Fin b) (Fin (pow2 30)) = Fin (b / pow2 30)"
    using b(1) ge by (intro fdiv_pow2_exact) simp_all
  have "\<bar>b / pow2 30\<bar> = b / pow2 30" "\<not> b / pow2 30 < 0" using one by linarith+
  then show ?thesis
    using assms ge by (simp add: formatSize_def format_consts d toFixed_def Let_def)
qed

lemma formatSize_MB:
  assumes "parseSize s = Fin b" "pow2 20 \<le> b" "b < pow2 30"
  shows "formatSize s = Inr (digits (nearest_whole (b / pow2 20)) @ '' MB'')"
proof -
  have b: "is_double b" "0 \<le> b" using parseSize_nonneg [of s] assms(1) by simp_all
  have d: "fdiv (Fin b) (Fin (pow2 20)) = Fin (b / pow2 20)"
    using b(1) assms(2) by (intro fdiv_pow2_exact) simp_all
  have q: "0 \<le> b / pow2 20" using b(2) by simp
  have "b / pow2 20 < pow2 30 / pow2 20" using assms(3) by (simp add: divide_strict_right_mono)
  also have "\<dots> < 10 ^ 21" by (simp add: pow2_eval)
  finally have "b / pow2 20 < 10 ^ 21" .
  from toFixed_0 [OF q this] show ?thesis
    using assms by (simp add: formatSize_def format_consts d Let_def)
qed

lemma formatSize_KB:
  assumes "parseSize s = Fin b" "b < pow2 20"
  shows "formatSize s = Inr (digits (nearest_whole (b / pow2 10)) @ '' KB'')"
proof -
  have b: "is_double b" "0 \<le> b" using parseSize_nonneg [of s] assms(1) by simp_all
  from fdiv_pow2_whole [OF b, of 10] obtain r where
    r: "fdiv (Fin b) (Fin (pow2 10)) = Fin r" "0 \<le> r" "r \<le> max (b / pow2 10) (pow2 (- 1022))"
      "nearest_whole r = nearest_whole (b / pow2 10)" by auto
  have "b / pow2 10 < pow2 20 / pow2 10" using assms(2) by (simp add: divide_strict_right_mono)
  also have "\<dots> < 10 ^ 21" by (simp add: pow2_eval)
  finally have 1: "b / pow2 10 < 10 ^ 21" .
  have "pow2 (- 1022) \<le> pow2 0" by (simp only: pow2_le_iff)
  then have 2: "pow2 (- 1022) < 10 ^ 21" by simp
  have "r < 10 ^ 21" using r(3) 1 2 by (simp add: max_def split: if_splits)
  from toFixed_0 [OF r(2) this] r(1,4) have
    "toFixed (fdiv (Fin b) (Fin 1024)) 0 = Inr (digits (nearest_whole (b / pow2 10)))"
    by (simp add: pow2_eval)
  moreover have "b < pow2 30" using assms(2) by (simp add: pow2_eval)
  ultimately show ?thesis
    using assms by (simp add: formatSize_def format_consts Let_def)
qed

section \<open>Sorting\<close>

lemma double_lt_overflow:
  assumes "is_double b" "0 \<le> b"
  shows "b < pow2 1024"
proof (cases "b = 0")
  case True
  then show ?thesis by simp
next
  case False
  with assms(2) have "0 < b" by simp
  from double_rep_strict [OF assms(1) this] show ?thesis by blast
qed

lemma fsub_doubles:
  assumes "is_double a" "0 \<le> a" "is_double b" "0 \<le> b"
  shows "(b < a \<longrightarrow> fsub (Fin a) (Fin b) = PosInf \<or> (\<exists>r. fsub (Fin a) (Fin b) = Fin r \<and> 0 < r))
     \<and> (a < b \<longrightarrow> fsub (Fin a) (Fin b) = NegInf \<or> (\<exists>r. fsub (Fin a) (Fin b) = Fin r \<and> r < 0))
     \<and> (a = b \<longrightarrow> fsub (Fin a) (Fin b) = Fin 0)"
proof (intro conjI impI)
  assume "b < a"
  from double_diff_ge [OF assms this] round_double_positive [of "a - b"]
  show "fsub (Fin a) (Fin b) = PosInf \<or> (\<exists>r. fsub (Fin a) (Fin b) = Fin r \<and> 0 < r)"
    by (simp add: fsub.simps)
next
  assume "a < b"
  from double_diff_ge [OF assms(3,4,1,2) this] round_double_positive [of "b - a"]
  have "round_double (b - a) = PosInf \<or> (\<exists>r. round_double (b - a) = Fin r \<and> 0 < r)" by simp
  moreover have "round_double (a - b) = fneg (round_double (b - a))"
    using round_double_minus [of "b - a"] by simp
  ultimately show "fsub (Fin a) (Fin b) = NegInf \<or> (\<exists>r. fsub (Fin a) (Fin b) = Fin r \<and> r < 0)"
    by (auto simp: fsub.simps)
next
  assume "a = b"
  then show "fsub (Fin a) (Fin b) = Fin 0" by (simp add: fsub.simps)
qed

lemma compare_sign:
  assumes "nonneg_number X" "nonneg_number Y" and that: "f x = X" "f y = Y"
  shows "(fge (SortCompare (\<lambda>a b. fsub (f a) (f b)) x y) (Fin 0)
          \<and> SortCompare (\<lambda>a b. fsub (f a) (f b)) x y \<noteq> Fin 0) \<longleftrightarrow> key_of Y < key_of X"
proof (cases X)
  case (Fin a)
  note X = this
  then have a: "is_double a" "0 \<le> a" using assms(1) by simp_all
  show ?thesis
  proof (cases Y)
    case (Fin b)
    then have b: "is_double b" "0 \<le> b" using assms(2) by simp_all
    consider "b < a" | "a < b" | "a = b" by linarith
    then show ?thesis
      using fsub_doubles [OF a b] X Fin that
      by cases (auto simp: SortCompare_def Let_def)
  next
    case PosInf
    then show ?thesis using X that double_lt_overflow [OF a]
      by (simp add: SortCompare_def Let_def)
  qed (use assms in simp_all)
next
  case PosInf
  note X = this
  show ?thesis
  proof (cases Y)
    case (Fin b)
    then have b: "is_double b" "0 \<le> b" using assms(2) by simp_all
    then show ?thesis using X Fin that double_lt_overflow [OF b]
      by (simp add: SortCompare_def Let_def)
  next
    case PosInf
    then show ?thesis using X that by (simp add: SortCompare_def Let_def)
  qed (use assms in simp_all)
qed (use assms in simp_all)

lemma insert_sorted_insort:
  "insert_sorted (\<lambda>a b. fsub (parseSize a) (parseSize b)) x ys = insort_key size_key x ys"
proof (induction ys)
  case Nil
  show ?case by simp
next
  case (Cons y ys)
  have "(fge (SortCompare (\<lambda>a b. fsub (parseSize a) (parseSize b)) x y) (Fin 0)
          \<and> SortCompare (\<lambda>a b. fsub (parseSize a) (parseSize b)) x y \<noteq> Fin 0)
        \<longleftrightarrow> size_key y < size_key x"
    unfolding size_key_def
    by (rule compare_sign [OF parseSize_nonneg parseSize_nonneg]) simp_all
  then show ?case using Cons by (simp add: not_less [symmetric])
qed

lemma array_sort_sort_key:
  "array_sort (\<lambda>a b. fsub (parseSize a) (parseSize b)) xs = sort_key size_key xs"
proof -
  have "insert_sorted (\<lambda>a b. fsub (parseSize a) (parseSize b)) = insort_key size_key"
    by (intro ext) (rule insert_sorted_insort)
  then show ?thesis by (simp add: array_sort_def sort_key_def)
qed

lemma key_of_le:
  assumes "nonneg_number X" "nonneg_number Y"
  shows "key_of X \<le> key_of Y \<longleftrightarrow> fge Y X"
proof (cases X; cases Y)
  fix a b assume "X = Fin a" "Y = PosInf"
  then show ?thesis using assms double_lt_overflow [of a] by simp
next
  fix a b assume "X = PosInf" "Y = Fin b"
  then show ?thesis using assms double_lt_overflow [of b] by simp
qed (use assms in simp_all)

lemma key_of_eq:
  assumes "nonneg_number X" "nonneg_number Y"
  shows "key_of X = key_of Y \<longleftrightarrow> X = Y"
proof (cases X; cases Y)
  fix a b assume "X = Fin a" "Y = PosInf"
  then show ?thesis using assms double_lt_overflow [of a] by simp
next
  fix a b assume "X = PosInf" "Y = Fin b"
  then show ?thesis using assms double_lt_overflow [of b] by simp
qed (use assms in simp_all)

lemma parse_sorted:
  "sorted_wrt (\<lambda>a b. fge (parseSize b) (parseSize a))
     (array_sort (\<lambda>a b. fsub (parseSize a) (parseSize b)) xs)"
proof -
  have "sorted (map size_key (sort_key size_key xs))" by (rule sorted_sort_key)
  then have "sorted_wrt (\<lambda>a b. size_key a \<le> size_key b) (sort_key size_key xs)"
    by (simp add: sorted_map)
  then show ?thesis unfolding array_sort_sort_key size_key_def
    by (simp add: key_of_le [OF parseSize_nonneg parseSize_nonneg])
qed

lemma parse_stable:
  "filter (\<lambda>t. parseSize t = B) (array_sort (\<lambda>a b. fsub (parseSize a) (parseSize b)) xs)
     = filter (\<lambda>t. parseSize t = B) xs"
proof (cases "nonneg_number B")
  case True
  have "\<And>t. parseSize t = B \<longleftrightarrow> size_key t = key_of B"
    unfolding size_key_def using key_of_eq [OF parseSize_nonneg True] by blast
  then show ?thesis unfolding array_sort_sort_key by (simp add: sort_key_stable)
next
  case False
  then have "\<And>t. parseSize t \<noteq> B" using parseSize_nonneg by metis
  then show ?thesis by simp
qed

lemma parse_mset:
  "mset (array_sort (\<lambda>a b. fsub (parseSize a) (parseSize b)) xs) = mset xs"
  unfolding array_sort_sort_key by simp

section \<open>What the list item pattern replaces\<close>

text \<open>The two alternatives of the pattern.\<close>

definition item_head :: regex where
  "item_head = Seq Bol (Seq (Cls ''-'') (Seq (Cls '' '') (Opt quote_cls)))"

definition item_tail :: regex where
  "item_tail = Seq (Opt quote_cls) Eol"

declare matcher.simps [simp del]

lemma matcher_quote:
  "matcher quote_cls n (s, c) =
     (case s of [] \<Rightarrow> [] | x # r \<Rightarrow> if is_quote x then [(r, c)] else [])"
  by (simp add: quote_cls_def is_quote_def matcher.simps(3) split: list.splits)

lemma matcher_opt_quote:
  "matcher (Opt quote_cls) n (s, c) =
     (if s \<noteq> [] \<and> is_quote (hd s) then [(tl s, c), (s, c)] else [(s, c)])"
  by (cases s) (simp_all add: matcher.simps(6) matcher_quote)

lemma item_re_parts: "item_re = Alt item_head item_tail"
  by (simp add: item_re_def item_head_def item_tail_def)

lemma matcher_item_tail:
  "matcher item_tail n (s, c) =
     (if s = [] \<or> (is_quote (hd s) \<and> tl s = []) then [([], c)] else [])"
  unfolding item_tail_def
  by (cases s) (simp_all add: matcher.simps(2,4) matcher_opt_quote)

lemma matcher_item_head_short:
  "length s \<noteq> n \<Longrightarrow> matcher item_head n (s, c) = []"
  by (simp add: item_head_def matcher.simps(1,4))

lemma matcher_item_head:
  "matcher item_head (Suc (Suc (length rest))) (CHR ''-'' # CHR '' '' # rest, c) =
     (if rest \<noteq> [] \<and> is_quote (hd rest) then [(tl rest, c), (rest, c)] else [(rest, c)])"
  unfolding item_head_def by (simp add: matcher.simps(1,3,4) matcher_opt_quote)

lemma matcher_item_short:
  "length s < n \<Longrightarrow>
     matcher item_re n (s, c) =
       (if s = [] \<or> (is_quote (hd s) \<and> tl s = []) then [([], c)] else [])"
  by (simp add: item_re_parts matcher.simps(5) matcher_item_head_short matcher_item_tail)

lemma search_item_tail:
  "length r < n \<Longrightarrow>
     search item_re n r =
       Some (if r \<noteq> [] \<and> is_quote (last r) then [last r] else [], ([], Map.empty))"
proof (induction r)
  case Nil
  then show ?case by (subst search.simps) (simp add: matcher_item_short)
next
  case (Cons x r)
  then have IH: "search item_re n r =
       Some (if r \<noteq> [] \<and> is_quote (last r) then [last r] else [], ([], Map.empty))"
    by simp
  have m: "matcher item_re n (x # r, Map.empty) = (if is_quote x \<and> r = [] then [([], Map.empty)] else [])"
    using Cons.prems by (simp add: matcher_item_short)
  show ?case
  proof (cases "r = []")
    case True
    show ?thesis
    proof (cases "is_quote x")
      case q: True
      then show ?thesis using m True by (subst search.simps) simp
    next
      case q: False
      then have "search item_re n [x] = search item_re n []"
        using m True by (subst search.simps) simp
      then show ?thesis using IH True q by simp
    qed
  next
    case False
    then have "search item_re n (x # r) = search item_re n r"
      using m by (subst search.simps) simp
    then show ?thesis using IH False by simp
  qed
qed

lemma search_item_head:
  "search item_re (Suc (Suc (length rest))) (CHR ''-'' # CHR '' '' # rest) =
     Some (CHR ''-'' # CHR '' '' # rest, (strip_leading_quote rest, Map.empty))"
  by (subst search.simps)
    (simp add: item_re_parts matcher.simps(5) matcher_item_head strip_leading_quote_def
      split: list.splits)

lemma length_strip_leading: "length (strip_leading_quote s) \<le> length s"
  by (simp add: strip_leading_quote_def split: list.splits)

lemma strip_leading_drop:
  "drop (Suc (Suc (length rest)) - length (strip_leading_quote rest)) (CHR ''-'' # CHR '' '' # rest)
     = strip_leading_quote rest"
proof -
  have "strip_leading_quote rest = rest \<or> (\<exists>c. rest = c # strip_leading_quote rest)"
    by (auto simp: strip_leading_quote_def split: list.splits)
  then show ?thesis
  proof
    assume "strip_leading_quote rest = rest"
    then show ?thesis by simp
  next
    assume "\<exists>c. rest = c # strip_leading_quote rest"
    then obtain c where c: "rest = c # strip_leading_quote rest" by blast
    then have "length rest = Suc (length (strip_leading_quote rest))" by (metis length_Cons)
    then have "Suc (Suc (length rest)) - length (strip_leading_quote rest) = 3" by simp
    moreover have "drop 3 (CHR ''-'' # CHR '' '' # rest) = strip_leading_quote rest"
      by (subst c) (simp add: numeral_3_eq_3)
    ultimately show ?thesis by simp
  qed
qed

lemma all_matches_item:
  assumes t: "t = CHR ''-'' # CHR '' '' # rest"
  defines "r1 \<equiv> strip_leading_quote rest"
  shows "all_matches item_re t 0 =
    (0, length t - length r1) #
    (if r1 \<noteq> [] \<and> is_quote (last r1)
     then [(length t - 1, length t), (length t, length t)]
     else [(length t, length t)])"
proof -
  define n where "n = length t"
  have n: "n = Suc (Suc (length rest))" by (simp add: n_def t)
  have l1: "length r1 \<le> length rest" unfolding r1_def by (rule length_strip_leading)
  then have lt: "length r1 < n" by (simp add: n)
  have e0: "exec item_re t 0 = Some (t, (r1, Map.empty))"
    using search_item_head [of rest] by (simp add: exec_def t r1_def)
  have drop1: "drop (n - length r1) t = r1"
    unfolding n t r1_def by (rule strip_leading_drop)
  have e1: "exec item_re t (n - length r1) =
      Some (if r1 \<noteq> [] \<and> is_quote (last r1) then [last r1] else [], ([], Map.empty))"
    using search_item_tail [OF lt] by (simp add: exec_def n_def [symmetric] drop1)
  have e2: "exec item_re t n = Some ([], ([], Map.empty))"
    using search_item_tail [of "[]" n] n by (simp add: exec_def n_def [symmetric])
  have e3: "exec item_re t (Suc n) = None" by (simp add: exec_def n_def)
  have m3: "all_matches item_re t (Suc n) = []"
    by (subst all_matches.simps) (simp add: e3)
  have m2: "all_matches item_re t n = [(n, n)]"
    by (subst all_matches.simps) (simp add: e2 n_def [symmetric] m3 Let_def)
  have step1: "all_matches item_re t 0 = (0, n - length r1) # all_matches item_re t (n - length r1)"
    using lt by (subst all_matches.simps) (simp add: e0 n_def [symmetric] Let_def)
  show ?thesis
  proof (cases "r1 \<noteq> [] \<and> is_quote (last r1)")
    case True
    have npos: "n \<noteq> n - Suc 0" by (simp add: n)
    have "all_matches item_re t (n - length r1) = (n - 1, n) # all_matches item_re t n"
      using True npos by (subst all_matches.simps) (simp add: e1 n_def [symmetric] Let_def)
    then show ?thesis using True step1 m2 by (simp add: n_def)
  next
    case False
    then have "all_matches item_re t (n - length r1) = (n, n) # all_matches item_re t (Suc n)"
      using lt by (subst all_matches.simps) (auto simp: e1 n_def [symmetric] Let_def)
    then show ?thesis using False step1 m3 by (simp add: n_def)
  qed
qed

lemma replace_all_item:
  assumes "startsWith t ''- ''"
  shows "replace_all t item_re [] = strip_trailing_quote (strip_leading_quote (drop 2 t))"
proof -
  from assms obtain rest where t: "t = CHR ''-'' # CHR '' '' # rest"
    by (cases t; cases "tl t") (auto simp: startsWith_def)
  define r1 where "r1 = strip_leading_quote rest"
  define n where "n = length t"
  have n: "n = Suc (Suc (length rest))" by (simp add: n_def t)
  have l1: "length r1 \<le> length rest" unfolding r1_def by (rule length_strip_leading)
  have drop1: "drop (n - length r1) t = r1"
    unfolding n t r1_def by (rule strip_leading_drop)
  have target: "strip_leading_quote (drop 2 t) = r1" by (simp add: t r1_def)
  note am = all_matches_item [OF t, folded r1_def n_def]
  have dn: "drop n t = []" by (simp add: n_def)
  show ?thesis
  proof (cases "r1 \<noteq> [] \<and> is_quote (last r1)")
    case True
    then have le: "n - length r1 \<le> n - 1" by (cases r1) auto
    have "n - Suc (n - length r1) = length r1 - 1" using l1 n by simp
    then have tk: "take (n - Suc (n - length r1)) r1 = butlast r1"
      by (simp add: butlast_conv_take)
    have c: "(r1 \<noteq> [] \<and> is_quote (last r1)) = True" using True by simp
    have "replace_all t item_re [] =
        splice_matches t [] 0 [(0, n - length r1), (n - 1, n), (n, n)]"
      by (simp only: replace_all_def am c if_True)
    also have "\<dots> = butlast r1" using le by (simp add: drop1 tk dn)
    finally show ?thesis using True by (simp add: target strip_trailing_quote_def)
  next
    case False
    have c: "(r1 \<noteq> [] \<and> is_quote (last r1)) = False" using False by simp
    have "replace_all t item_re [] = splice_matches t [] 0 [(0, n - length r1), (n, n)]"
      by (simp only: replace_all_def am c if_False)
    also have "\<dots> = r1"
    proof -
      have "n - (n - length r1) = length r1" using l1 n by simp
      then show ?thesis by (simp add: drop1 dn)
    qed
    finally show ?thesis using False by (auto simp: target strip_trailing_quote_def)
  qed
qed

section \<open>Scanning the lines\<close>

lemma startsWith_item_dash: "startsWith t ''- '' \<Longrightarrow> startsWith t ''-''"
  by (cases t) (auto simp: startsWith_def)

lemma startsWith_dash_not_marker: "startsWith t ''-'' \<Longrightarrow> t \<noteq> ''files:''"
  by (auto simp: startsWith_def)

lemma marker_not_item: "\<not> startsWith ''files:'' ''- ''"
  by (simp add: startsWith_def)

lemma scan_item:
  assumes "startsWith (trim line) ''- ''"
  shows "scan_lines True (line # rest) files = scan_lines True rest (files @ [item_entry (trim line)])"
proof -
  have "trim line \<noteq> ''files:''"
    using assms by (intro startsWith_dash_not_marker startsWith_item_dash)
  then show ?thesis using assms
    by (simp add: Let_def replace_all_item item_entry_def)
qed

lemma scan_skip_dash:
  assumes "startsWith (trim line) ''-''" "\<not> startsWith (trim line) ''- ''"
  shows "scan_lines True (line # rest) files = scan_lines True rest files"
  using assms startsWith_dash_not_marker [OF assms(1)] by (simp add: Let_def)

lemma scan_in_section:
  "scan_lines True ls files =
     files @ map (\<lambda>l. item_entry (trim l))
       (filter (\<lambda>l. startsWith (trim l) ''- '')
          (takeWhile (\<lambda>l. \<not> ends_section (trim l)) ls))"
proof (induction ls arbitrary: files)
  case Nil
  show ?case by simp
next
  case (Cons l ls)
  consider "trim l = ''files:''" | "startsWith (trim l) ''- ''"
    | "trim l \<noteq> ''files:''" "\<not> startsWith (trim l) ''- ''" "ends_section (trim l)"
    | "trim l \<noteq> ''files:''" "\<not> startsWith (trim l) ''- ''" "\<not> ends_section (trim l)"
    by blast
  then show ?case
  proof cases
    case 1
    then show ?thesis using Cons [of files]
      by (simp add: Let_def ends_section_def marker_not_item)
  next
    case 2
    then have "\<not> ends_section (trim l)"
      by (simp add: ends_section_def startsWith_item_dash)
    then show ?thesis using 2 scan_item [OF 2, of ls files] Cons [of "files @ [item_entry (trim l)]"]
      by simp
  next
    case 3
    then show ?thesis by (simp add: Let_def ends_section_def)
  next
    case 4
    then show ?thesis using Cons [of files]
      by (auto simp: Let_def ends_section_def)
  qed
qed

lemma scan_before_section:
  "scan_lines False ls files =
     (case dropWhile (\<lambda>l. trim l \<noteq> ''files:'') ls of
        [] \<Rightarrow> files
      | marker # sec \<Rightarrow> scan_lines True sec files)"
  by (induction ls) (simp_all add: Let_def)

lemma scan_section_entries:
  "scan_lines False ls files = files @ section_entries ends_section ls"
proof -
  define d where "d = dropWhile (\<lambda>l. trim l \<noteq> ''files:'') ls"
  show ?thesis
    unfolding scan_before_section section_entries_def d_def [symmetric]
    by (cases d) (simp_all add: scan_in_section)
qed

section \<open>Worked values\<close>

text \<open>Computing the byte count of a token whose number is an integer times a power of two.\<close>

lemma parseSize_dyadic:
  assumes "is_number v" "unit_exp u = Some k"
    and v: "number_value v = of_int n * pow2 e"
    and n: "0 < n" "n < 2 ^ 53" and e: "- 1074 \<le> e"
    and lt: "of_int n * pow2 e * 1024 ^ k < pow2 1024"
  shows "parseSize (v @ u) = Fin (of_int n * pow2 e * 1024 ^ k)"
proof -
  have "pow2 0 \<le> pow2 (10 * int k)" by (simp only: pow2_le_iff)
  then have "of_int n * pow2 e * 1 \<le> of_int n * pow2 e * pow2 (10 * int k)"
    using n(1) by (intro mult_left_mono) simp_all
  then have "of_int n * pow2 e < pow2 1024" using lt by (simp add: pow_1024)
  from representable [OF n e this] have "is_double (number_value v)"
    by (simp add: is_double_def v)
  from parseSize_exact [OF assms(1,2) this] lt show ?thesis by (simp add: v)
qed

lemmas token_eval = is_number_def is_digit_def unit_exp_def number_value_def dec_value_def
  digit_val_def pow2_eval Let_def

lemma ex_1kb: "parseSize ''1kb'' = Fin 1024"
  using parseSize_dyadic [of "''1''" "''kb''" 1 1 0] by (simp add: token_eval)

lemma ex_100mb: "parseSize ''100mb'' = Fin 104857600"
  using parseSize_dyadic [of "''100''" "''mb''" 2 100 0] by (simp add: token_eval)

lemma ex_1gb: "parseSize ''1gb'' = Fin 1073741824"
  using parseSize_dyadic [of "''1''" "''gb''" 3 1 0] by (simp add: token_eval)

lemma ex_1mb: "parseSize ''1mb'' = Fin 1048576"
  using parseSize_dyadic [of "''1''" "''mb''" 2 1 0] by (simp add: token_eval)

lemma ex_1024kb: "parseSize ''1024kb'' = Fin 1048576"
  using parseSize_dyadic [of "''1024''" "''kb''" 1 1024 0] by (simp add: token_eval)

lemma ex_1024mb: "parseSize ''1024mb'' = Fin 1073741824"
  using parseSize_dyadic [of "''1024''" "''mb''" 2 1024 0] by (simp add: token_eval)

lemma ex_512mb: "parseSize ''512mb'' = Fin 536870912"
  using parseSize_dyadic [of "''512''" "''mb''" 2 512 0] by (simp add: token_eval)

lemma ex_512kb: "parseSize ''512kb'' = Fin 524288"
  using parseSize_dyadic [of "''512''" "''kb''" 1 512 0] by (simp add: token_eval)

lemma ex_25gb: "parseSize ''2.5gb'' = Fin 2684354560"
  using parseSize_dyadic [of "''2.5''" "''gb''" 3 5 "- 1"] by (simp add: token_eval)

text \<open>Computing \<open>round_double\<close> at a given rational from its binary exponent and significand.\<close>

lemma round_double_eval:
  assumes "pow2 e \<le> q" "q < pow2 (e + 1)"
    and "u = max (e - 52) (- 1074)"
    and "round_half_even (q / pow2 u) = n"
    and "r = of_int n * pow2 u" "r < pow2 1024"
  shows "round_double q = Fin r"
proof -
  have q: "0 < q" using assms(1) pow2_pos [of e] by linarith
  have "ulp_exp q = u" using ilog2_unique [OF assms(1,2)] assms(3) by (simp add: ulp_exp_def)
  then show ?thesis using q assms(4,5,6) by (simp add: round_double_pos Let_def)
qed

lemma round_half_even_nearest:
  assumes "of_int n - 1 / 2 < x" "x < of_int n + 1 / 2"
  shows "round_half_even x = n"
proof -
  have f: "\<lfloor>x\<rfloor> = n \<or> \<lfloor>x\<rfloor> = n - 1" using assms by linarith
  then show ?thesis
  proof
    assume a: "\<lfloor>x\<rfloor> = n"
    then have "x - of_int \<lfloor>x\<rfloor> < 1 / 2" using assms(2) by simp
    then show ?thesis using a by (simp add: round_half_even_def Let_def)
  next
    assume a: "\<lfloor>x\<rfloor> = n - 1"
    then have "1 / 2 < x - of_int \<lfloor>x\<rfloor>" using assms(1) by simp
    then show ?thesis using a by (simp add: round_half_even_def Let_def)
  qed
qed

lemma round_double_two_fifths:
  "round_double (2 / 5) = Fin (3602879701896397 / 9007199254740992)"
  by (rule round_double_eval [where e = "- 2" and u = "- 54" and n = 7205759403792794])
    (simp_all add: pow2_eval round_half_even_nearest)

lemma round_double_tenth:
  "round_double (1 / 10) = Fin (3602879701896397 / 36028797018963968)"
  by (rule round_double_eval [where e = "- 4" and u = "- 56" and n = 7205759403792794])
    (simp_all add: pow2_eval round_half_even_nearest)

lemma ex_04kb: "parseSize ''0.4kb'' = Fin (3602879701896397 / 8796093022208)"
proof -
  have n: "is_number ''0.4''" by (simp add: token_eval)
  have u: "unit_exp ''kb'' = Some 1" by (simp add: token_eval)
  have v: "number_value ''0.4'' = 2 / 5" by (simp add: token_eval)
  from parseSize_number_unit [OF n u] show ?thesis
    by (simp add: v round_double_two_fifths times_pow2_def pow2_eval)
qed

lemma ex_01kb: "parseSize ''0.1kb'' = Fin (3602879701896397 / 35184372088832)"
proof -
  have n: "is_number ''0.1''" by (simp add: token_eval)
  have u: "unit_exp ''kb'' = Some 1" by (simp add: token_eval)
  have v: "number_value ''0.1'' = 1 / 10" by (simp add: token_eval)
  from parseSize_number_unit [OF n u] show ?thesis
    by (simp add: v round_double_tenth times_pow2_def pow2_eval)
qed

lemma consts_1024: "(1024::rat) ^ 3 = pow2 30" "(1024::rat) ^ 2 = pow2 20" "(1024::rat) = pow2 10"
  by (simp_all add: pow2_eval)

lemmas render_eval = nearest_whole_def digits_lt10 digits_ge10 digit_char_def char_of_eq_iff
  floor_divide_eq_div_numeral

lemma nearest_whole_of_nat [simp]: "nearest_whole (of_nat n) = n"
proof -
  have "\<lfloor>(of_int (int n) :: rat) + 1 / 2\<rfloor> = int n"
    by (rule floor_unique) simp_all
  then show ?thesis by (simp add: nearest_whole_def)
qed

lemma nearest_whole_numeral [simp]: "nearest_whole (numeral n) = numeral n"
  using nearest_whole_of_nat [of "numeral n"] by simp

lemma nearest_whole_1 [simp]: "nearest_whole 1 = 1"
  using nearest_whole_of_nat [of 1] by simp

lemma digits_1: "digits 1 = ''1''"
proof -
  have "digits 1 = [digit_char 1]" by (rule digits_lt10) simp
  also have "digit_char 1 = CHR ''1''" by (simp add: digit_char_def char_of_eq_iff)
  finally show ?thesis .
qed

lemma digits_Suc0: "digits (Suc 0) = ''1''"
  using digits_1 by simp

lemma digits_examples:
  "digits 0 = ''0''" "digits 2 = ''2''" "digits 5 = ''5''"
  "digits 100 = ''100''" "digits 512 = ''512''"
  by (simp_all add: render_eval digits_1)

lemma one_decimal_examples:
  "one_decimal 1 = ''1''" "one_decimal (5 / 2) = ''2.5''" "one_decimal (3 / 2) = ''1.5''"
  by (simp_all add: one_decimal_def Let_def digits_examples digits_Suc0)

lemma ex_huge:
  "parseSize ''1000000000000000000000gb'' = Fin (10 ^ 21 * 1024 ^ 3)"
  using parseSize_dyadic [of "''1000000000000000000000''" "''gb''" 3 476837158203125 21]
  by (simp add: token_eval)

lemma round_double_1e21: "round_double 1000000000000000000000 = Fin 1000000000000000000000"
  using representable [of 476837158203125 21] by (simp add: pow2_eval)

lemma round_double_2e21: "round_double 2000000000000000000000 = Fin 2000000000000000000000"
  using representable [of 476837158203125 22] by (simp add: pow2_eval)

lemma shortest_1e21: "shortest_at 1000000000000000000000 22 (Suc 0) = Some 1000000000000000000000"
  by (simp add: shortest_at_def round_double_1e21 round_double_2e21 Let_def)

lemma digits_21: "digits 21 = ''21''"
  by (simp add: render_eval)

lemma digits_1e21: "digits 1000000000000000000000 = ''1000000000000000000000''"
  by (simp add: render_eval)

lemma toString_1e21: "toString_large 1000000000000000000000 = ''1e+21''"
proof -
  have d: "digits (nat \<lfloor>1000000000000000000000 :: rat\<rfloor>) = ''1000000000000000000000''"
    by (simp add: digits_1e21)
  have n: "length ''1000000000000000000000'' = 22" by simp
  have l: "(22::nat) - 1 = 21" by simp
  have "[1 ..< 18] = 1 # [2 ..< 18]" by (simp add: upt_conv_Cons)
  then have fs: "first_some (shortest_at 1000000000000000000000 22) [1 ..< 18] = Some 1000000000000000000000"
    by (simp add: shortest_1e21)
  show ?thesis
    unfolding toString_large_def Let_def d n fs option.case l digits_21 by simp
qed

lemma ex_huge_105:
  "parseSize ''1050000000000000000000gb'' = Fin (1050000000000000000000 * 1024 ^ 3)"
  using parseSize_dyadic [of "''1050000000000000000000''" "''gb''" 3 2002716064453125 19]
  by (simp add: token_eval)

lemma round_double_1_1e21: "round_double 1100000000000000000000 = Fin 1100000000000000000000"
  using representable [of 1049041748046875 20] by (simp add: pow2_eval)

lemma round_double_1_05e21: "round_double 1050000000000000000000 = Fin 1050000000000000000000"
  using representable [of 2002716064453125 19] by (simp add: pow2_eval)

lemma round_double_1_06e21: "round_double 1060000000000000000000 = Fin 1060000000000000000000"
  using representable [of 2021789550781250 19] by (simp add: pow2_eval)

lemma floor_1_05e21: "\<lfloor>21 / 20 :: rat\<rfloor> = 1" "\<lfloor>21 / 2 :: rat\<rfloor> = 10"
  by (simp_all add: floor_eq_iff)

lemma shortest_1_05e21:
  "shortest_at 1050000000000000000000 22 (Suc 0) = None"
  "shortest_at 1050000000000000000000 22 2 = None"
  "shortest_at 1050000000000000000000 22 3 = Some 1050000000000000000000"
  by (simp_all add: shortest_at_def Let_def floor_1_05e21
      round_double_1e21 round_double_2e21 round_double_1_1e21 round_double_1_05e21
      round_double_1_06e21)

lemma digits_1_05e21: "digits 1050000000000000000000 = ''1050000000000000000000''"
  by (simp add: render_eval)

lemma toString_1_05e21: "toString_large 1050000000000000000000 = ''1.05e+21''"
proof -
  have d: "digits (nat \<lfloor>1050000000000000000000 :: rat\<rfloor>) = ''1050000000000000000000''"
    by (simp add: digits_1_05e21)
  have n: "length ''1050000000000000000000'' = 22" by simp
  have l: "(22::nat) - 1 = 21" by simp
  have "[1 ..< 18] = 1 # 2 # 3 # [4 ..< 18]" by (simp add: upt_conv_Cons)
  then have fs: "first_some (shortest_at 1050000000000000000000 22) [1 ..< 18] = Some 1050000000000000000000"
    by (simp add: shortest_1_05e21)
  show ?thesis
    unfolding toString_large_def Let_def d n fs option.case l digits_21 by simp
qed

lemma replace_1_05e21: "replace_str ''.0'' [] ''1.05e+21'' = ''15e+21''"
  by (simp add: startsWith_def)

lemma foldl_zeros:
  "foldl (\<lambda>a c. 10 * a + digit_val c) a (replicate n CHR ''0'') = a * 10 ^ n"
  by (induction n arbitrary: a) (simp_all add: digit_val_def)

lemma ex_infinite: "parseSize (''1'' @ replicate 309 CHR ''0'' @ ''gb'') = PosInf"
proof -
  define v where "v = ''1'' @ replicate 309 CHR ''0''"
  have a: "list_all is_digit v" by (simp add: v_def is_digit_def list_all_iff)
  have e: "v \<noteq> []" by (simp add: v_def)
  have t: "takeWhile is_digit v = v" "dropWhile is_digit v = []"
    using a by (simp_all add: list_all_iff)
  have n: "is_number v" unfolding is_number_iff using a e by blast
  have u: "unit_exp ''gb'' = Some 3" by (simp add: unit_exp_def)
  have "digit_val CHR ''1'' = 1" by (simp add: digit_val_def)
  then have d: "dec_value v = 10 ^ 309"
    by (simp add: v_def dec_value_def foldl_zeros)
  have "number_value v = of_nat (dec_value v)"
    unfolding number_value_def Let_def t by (simp add: dec_value_def)
  then have "number_value v = 10 ^ 309" unfolding d by simp
  moreover have "pow2 1024 \<le> (10::rat) ^ 309" by (simp add: pow2_eval)
  ultimately have "round_double (number_value v) = PosInf" by (simp add: round_double_overflow)
  with parseSize_number_unit [OF n u] have "parseSize (v @ ''gb'') = PosInf"
    by (simp add: times_pow2_def)
  then show ?thesis by (simp add: v_def)
qed

section \<open>Totality, the fallback and the page\<close>

lemmas string_eval = trim_def is_ws_def startsWith_def item_entry_def strip_leading_quote_def
  strip_trailing_quote_def is_quote_def toLowerCase_def lower_char_def char_of_eq_iff Let_def

lemma round_double_4096_tenths:
  "round_double (2048 / 5) = Fin (3602879701896397 / 8796093022208)"
  by (rule round_double_eval [where e = 8 and u = "- 44" and n = 7205759403792794])
    (simp_all add: pow2_eval round_half_even_nearest)

lemma parseSize_not_token: "\<not> is_token s \<Longrightarrow> parseSize s = Fin 0"
  by (simp add: parseSize_def match_size_re)

lemma formatSize_below_512:
  assumes "parseSize s = Fin b" "b < 512"
  shows "formatSize s = Inr ''0 KB''"
proof -
  have b: "0 \<le> b" using parseSize_nonneg [of s] assms(1) by simp
  have "b < pow2 20" using assms(2) by (simp add: pow2_eval)
  from formatSize_KB [OF assms(1) this]
  have "formatSize s = Inr (digits (nearest_whole (b / pow2 10)) @ '' KB'')" .
  moreover have "nearest_whole (b / pow2 10) = 0"
    using b assms(2) by (intro nearest_whole_small) (simp_all add: pow2_eval)
  ultimately show ?thesis by (simp add: digits_examples)
qed

lemma formatSize_total: "\<exists>t. formatSize s = Inr t"
proof (cases "parseSize s")
  case (Fin b)
  consider "b < pow2 20" | "pow2 20 \<le> b" "b < pow2 30"
    | "pow2 30 \<le> b" "b / pow2 30 < 10 ^ 21" | "pow2 30 \<le> b" "10 ^ 21 \<le> b / pow2 30"
    by linarith
  then show ?thesis
  proof cases
    case 1 from formatSize_KB [OF Fin 1] show ?thesis by blast
  next
    case 2 from formatSize_MB [OF Fin 2] show ?thesis by blast
  next
    case 3 from formatSize_GB [OF Fin 3] show ?thesis by blast
  next
    case 4 from formatSize_huge [OF Fin 4(2)] show ?thesis by blast
  qed
next
  case PosInf
  from formatSize_Inf [OF this] show ?thesis by blast
next
  case NegInf
  then show ?thesis using parseSize_nonneg [of s] by simp
next
  case NaN
  then show ?thesis using parseSize_nonneg [of s] by simp
qed

lemma scan_lines_length:
  "length (scan_lines inSec ls files) \<le> length files + length ls"
proof (induction ls arbitrary: inSec files)
  case Nil
  show ?case by simp
next
  case (Cons l ls)
  have a: "length (scan_lines b ls fs) \<le> length fs + length ls" for b fs
    by (rule Cons.IH)
  show ?case
    using a [of True files] a [of inSec files]
      a [of inSec "files @ [toLowerCase (replace_all (trim l) item_re [])]"]
    by (auto simp: Let_def)
qed

lemma cards_total: "\<exists>cs. cards xs = Inr cs \<and> length cs = length xs"
proof (induction xs)
  case Nil
  show ?case by simp
next
  case (Cons x xs)
  obtain t where "formatSize x = Inr t" using formatSize_total by blast
  with Cons show ?case by auto
qed

lemma displayFiles_total:
  "\<exists>this'. displayFiles this = Inr this' \<and> filesList this' \<noteq> ErrorMessage \<and>
     (filesList this' = NoFilesMessage \<longleftrightarrow> availableFiles this = [])"
proof (cases "availableFiles this = []")
  case True
  then show ?thesis by (simp add: displayFiles_def)
next
  case False
  obtain cs where "cards (availableFiles this) = Inr cs" using cards_total by blast
  with False show ?thesis by (simp add: displayFiles_def)
qed

lemma formatSize_1kb: "formatSize ''1kb'' = Inr ''1 KB''"
proof -
  have "formatSize ''1kb'' = Inr (digits (nearest_whole (1024 / pow2 10)) @ '' KB'')"
    by (rule formatSize_KB [OF ex_1kb]) (simp add: pow2_eval)
  then show ?thesis by (simp add: pow2_eval digits_Suc0)
qed

lemma constructed_empty: "availableFiles constructed = []"
  by (simp add: constructed_def)

lemma parse_no_marker:
  "parseYamlFiles constructed ''Not Found'' = constructed"
  "parseYamlFiles constructed [] = constructed"
  by (simp_all add: parseYamlFiles_def constructed_def array_sort_def string_eval)

section \<open>The claims\<close>

text \<open>
  C1. For every token \<open>N<unit>\<close>, with \<open>N\<close> one or more digits optionally followed by
  a decimal point and one or more digits and the unit one of \<open>kb\<close>, \<open>mb\<close>, \<open>gb\<close>,
  \<open>parseSize\<close> returns \<open>N * 1024^k\<close> with \<open>k\<close> = 1, 2, 3: the product, as the
  script computes with Numbers, of the Number that the text \<open>N\<close> denotes and
  \<open>1024^k\<close>. Where \<open>N\<close> is itself a double and the product stays below \<open>2^1024\<close>
  this is the exact rational \<open>N * 1024^k\<close>; and \<open>parseSize "1.5gb" = 1610612736\<close>.
\<close>

theorem parseSize_token:
  assumes "is_number v" "unit_exp u = Some k"
  shows "parseSize (v @ u) = fmul (round_double (number_value v)) (Fin (1024 ^ k)) \<and>
    (is_double (number_value v) \<and> number_value v * 1024 ^ k < pow2 1024 \<longrightarrow>
       parseSize (v @ u) = Fin (number_value v * 1024 ^ k)) \<and>
    parseSize ''1.5gb'' = Fin 1610612736"
  using parseSize_product [OF assms] parseSize_exact [OF assms] ex_15gb by blast

theorem parseSize_token_witness:
  "is_number ''100'' \<and> unit_exp ''mb'' = Some 2 \<and> parseSize ''100mb'' = Fin 104857600"
proof -
  have n: "is_number ''100''" by (simp add: is_number_def is_digit_def)
  have u: "unit_exp ''mb'' = Some 2" by (simp add: unit_exp_def)
  have v: "number_value ''100'' = 100"
    by (simp add: number_value_def is_digit_def dec_value_def digit_val_def)
  have "round_double (of_int 100 * pow2 0) = Fin (of_int 100 * pow2 0)"
    by (rule representable) (simp_all add: pow2_eval)
  then have d: "is_double (number_value ''100'')" by (simp add: is_double_def v)
  have b: "number_value ''100'' * 1024 ^ 2 < pow2 1024" by (simp add: v pow2_eval)
  from parseSize_token [OF n u] d b have "parseSize (''100'' @ ''mb'') = Fin (number_value ''100'' * 1024 ^ 2)"
    by blast
  with n u show ?thesis by (simp add: v)
qed

text \<open>
  C9. An in-section line whose trimmed content starts with \<open>-\<close> but not with \<open>- \<close>
  is skipped: the loop goes on with the same flag and the same list, so the line gives
  no entry and the later list items are still collected.
\<close>

theorem dash_line_skipped:
  assumes "startsWith (trim line) ''-''" "\<not> startsWith (trim line) ''- ''"
  shows "scan_lines True (line # rest) files = scan_lines True rest files"
  using assms by (rule scan_skip_dash)

theorem dash_line_skipped_witness:
  "startsWith (trim ''-1kb'') ''-'' \<and> \<not> startsWith (trim ''-1kb'') ''- '' \<and>
   scan_lines True [''-1kb'', ''- 2kb''] [] = [''2kb''] \<and>
   scan_lines True [''  -'', ''- 2kb''] [] = [''2kb'']"
proof -
  have a: "startsWith (trim ''-1kb'') ''-''" "\<not> startsWith (trim ''-1kb'') ''- ''"
    by (simp_all add: string_eval)
  have b: "startsWith (trim ''  -'') ''-''" "\<not> startsWith (trim ''  -'') ''- ''"
    by (simp_all add: string_eval)
  have i: "startsWith (trim ''- 2kb'') ''- ''" by (simp add: string_eval)
  have e: "scan_lines True [''- 2kb''] [] = [''2kb'']"
    using scan_item [OF i, of "[]" "[]"] by (simp add: string_eval)
  from dash_line_skipped [OF a, of "[''- 2kb'']" "[]"] dash_line_skipped [OF b, of "[''- 2kb'']" "[]"] a e
  show ?thesis by simp
qed

text \<open>
  C7. The list the loop collects from a document is the list it started with, followed
  by one entry for each list item line of the section, in the order of the lines, and
  by nothing else: the section is the lines after the first marker line up to the
  first line that ends it, its list item lines are those whose trimmed content begins
  with \<open>- \<close>, and the entry of such a line is its trimmed content without the marker,
  without at most one leading and one trailing quote character, lower-cased. In
  particular a step of the loop at such a line, inside the section, goes on with the
  list extended by that one entry. Nothing checks the entry against the token grammar,
  and the catalog is the sorted list of these entries: it has the same entries, counted
  with repetitions.
\<close>

theorem list_item_entry:
  "(startsWith (trim line) ''- '' \<longrightarrow>
      scan_lines True (line # rest) files = scan_lines True rest (files @ [item_entry (trim line)])) \<and>
    scan_lines False lines files' =
      files' @ map (\<lambda>l. item_entry (trim l))
        (filter (\<lambda>l. startsWith (trim l) ''- '')
          (takeWhile (\<lambda>l. \<not> ends_section (trim l))
            (drop 1 (dropWhile (\<lambda>l. trim l \<noteq> ''files:'') lines)))) \<and>
    availableFiles (parseYamlFiles this yamlText) =
      array_sort (\<lambda>a b. fsub (parseSize a) (parseSize b))
        (availableFiles this @ section_entries ends_section (split_nl yamlText)) \<and>
    mset (availableFiles (parseYamlFiles this yamlText)) =
      mset (availableFiles this) + mset (section_entries ends_section (split_nl yamlText))"
proof -
  define d where "d = dropWhile (\<lambda>l. trim l \<noteq> ''files:'') lines"
  have "(case d of [] \<Rightarrow> []
        | marker # sec \<Rightarrow>
            map (\<lambda>l. item_entry (trim l))
              (filter (\<lambda>l. startsWith (trim l) ''- '')
                (takeWhile (\<lambda>l. \<not> ends_section (trim l)) sec))) =
      map (\<lambda>l. item_entry (trim l))
        (filter (\<lambda>l. startsWith (trim l) ''- '')
          (takeWhile (\<lambda>l. \<not> ends_section (trim l)) (drop 1 d)))"
    by (cases d) simp_all
  then have "section_entries ends_section lines =
      map (\<lambda>l. item_entry (trim l))
        (filter (\<lambda>l. startsWith (trim l) ''- '')
          (takeWhile (\<lambda>l. \<not> ends_section (trim l))
            (drop 1 (dropWhile (\<lambda>l. trim l \<noteq> ''files:'') lines))))"
    unfolding d_def section_entries_def .
  then have a: "scan_lines False lines files' =
      files' @ map (\<lambda>l. item_entry (trim l))
        (filter (\<lambda>l. startsWith (trim l) ''- '')
          (takeWhile (\<lambda>l. \<not> ends_section (trim l))
            (drop 1 (dropWhile (\<lambda>l. trim l \<noteq> ''files:'') lines))))"
    by (simp only: scan_section_entries)
  have b: "availableFiles (parseYamlFiles this yamlText) =
      array_sort (\<lambda>a b. fsub (parseSize a) (parseSize b))
        (availableFiles this @ section_entries ends_section (split_nl yamlText))"
    by (simp add: parseYamlFiles_def scan_section_entries)
  have c: "mset (availableFiles (parseYamlFiles this yamlText)) =
      mset (availableFiles this) + mset (section_entries ends_section (split_nl yamlText))"
    unfolding b parse_mset by simp
  have s: "startsWith (trim line) ''- '' \<longrightarrow>
      scan_lines True (line # rest) files = scan_lines True rest (files @ [item_entry (trim line)])"
    using scan_item by blast
  from s a b c show ?thesis by (intro conjI)
qed

theorem list_item_entry_witness:
  "startsWith (trim (''  - '' @ [CHR 0x27] @ ''BANANA'' @ [CHR 0x22])) ''- '' \<and>
   scan_lines True [''  - '' @ [CHR 0x27] @ ''BANANA'' @ [CHR 0x22]] [] = [''banana''] \<and>
   scan_lines False [''- 2kb'', ''files:'', ''- 1kb'', ''other:'', ''- 3kb''] [] = [''1kb''] \<and>
   availableFiles (parseYamlFiles constructed ''files:\<newline>- 1kb\<newline>other:'') = [''1kb'']"
proof -
  have i: "startsWith (trim (''  - '' @ [CHR 0x27] @ ''BANANA'' @ [CHR 0x22])) ''- ''"
    by (simp add: string_eval)
  note t = list_item_entry [of "''  - '' @ [CHR 0x27] @ ''BANANA'' @ [CHR 0x22]" "[]" "[]"]
  have 1: "scan_lines True [''  - '' @ [CHR 0x27] @ ''BANANA'' @ [CHR 0x22]] [] = [''banana'']"
    using t [THEN conjunct1] i by (simp add: string_eval)
  have 2: "scan_lines False [''- 2kb'', ''files:'', ''- 1kb'', ''other:'', ''- 3kb''] [] = [''1kb'']"
    by (simp only: t [THEN conjunct2, THEN conjunct1]) (simp add: ends_section_def string_eval)
  have s: "split_nl ''files:\<newline>- 1kb\<newline>other:'' = [''files:'', ''- 1kb'', ''other:'']"
    by simp
  have e: "section_entries ends_section [''files:'', ''- 1kb'', ''other:''] = [''1kb'']"
    by (simp add: section_entries_def ends_section_def string_eval)
  have 3: "availableFiles (parseYamlFiles constructed ''files:\<newline>- 1kb\<newline>other:'') = [''1kb'']"
    by (simp only: t [THEN conjunct2, THEN conjunct2, THEN conjunct1] s e)
      (simp add: constructed_def array_sort_def)
  from i 1 2 3 show ?thesis by (intro conjI)
qed

text \<open>
  C3, as the code has it. The loop collects the entries of the list item lines between
  the first line whose trimmed content is \<open>files:\<close> and the first later line whose
  trimmed content is not blank, does not start with \<open>-\<close> and is not \<open>files:\<close> again;
  that line ends the section. Lines before the marker and after the end give no entry,
  and a document without marker line leaves the catalog as it was, empty for a new
  instance.
\<close>

theorem section_scan:
  "availableFiles (parseYamlFiles this yamlText) =
     array_sort (\<lambda>a b. fsub (parseSize a) (parseSize b))
       (availableFiles this @ section_entries ends_section (split_nl yamlText)) \<and>
   ((\<forall>l \<in> set (split_nl yamlText). trim l \<noteq> ''files:'') \<longrightarrow>
      availableFiles (parseYamlFiles constructed yamlText) = [])"
proof -
  have "section_entries ends_section (split_nl yamlText) = []"
    if "\<forall>l \<in> set (split_nl yamlText). trim l \<noteq> ''files:''"
  proof -
    from that have d: "dropWhile (\<lambda>l. trim l \<noteq> ''files:'') (split_nl yamlText) = []" by simp
    show ?thesis by (simp add: section_entries_def d)
  qed
  then show ?thesis
    by (auto simp: parseYamlFiles_def scan_section_entries constructed_def array_sort_def)
qed

text \<open>
  The statement with the section ending at the first line that is not blank and does not
  start with \<open>- \<close> fails on a document whose section holds the line \<open>-x\<close>: the
  statement ends the section there and gives no entry, the code goes on to \<open>1kb\<close>.
\<close>

theorem section_scan_counterexample:
  "availableFiles (parseYamlFiles constructed (''files:\<newline>-x\<newline>- 1kb''))
     = [''1kb''] \<and>
   section_entries ends_stated (split_nl (''files:\<newline>-x\<newline>- 1kb'')) = []"
proof -
  have s: "split_nl (''files:\<newline>-x\<newline>- 1kb'')
      = [''files:'', ''-x'', ''- 1kb'']"
    by simp
  have "section_entries ends_section [''files:'', ''-x'', ''- 1kb''] = [''1kb'']"
    by (simp add: section_entries_def ends_section_def string_eval)
  moreover have "section_entries ends_stated [''files:'', ''-x'', ''- 1kb''] = []"
    by (simp add: section_entries_def ends_stated_def string_eval)
  ultimately show ?thesis
    by (simp only: s parseYamlFiles_def scan_section_entries)
      (simp add: constructed_def array_sort_def)
qed

theorem section_scan_witness:
  "split_nl ''name: x\<newline>- 1kb'' = [''name: x'', ''- 1kb''] \<and>
   trim ''name: x'' \<noteq> ''files:'' \<and> trim ''- 1kb'' \<noteq> ''files:'' \<and>
   availableFiles (parseYamlFiles constructed (''name: x\<newline>- 1kb'')) = [] \<and>
   availableFiles (parseYamlFiles constructed
     (''files:\<newline>  - 1kb\<newline>other:\<newline>  - 2kb'')) = [''1kb'']"
proof -
  have s: "split_nl (''name: x\<newline>- 1kb'') = [''name: x'', ''- 1kb'']"
    by simp
  have n: "\<forall>l \<in> set (split_nl (''name: x\<newline>- 1kb'')). trim l \<noteq> ''files:''"
    unfolding s by (simp add: string_eval)
  have t: "split_nl (''files:\<newline>  - 1kb\<newline>other:\<newline>  - 2kb'')
      = [''files:'', ''  - 1kb'', ''other:'', ''  - 2kb'']"
    by simp
  have e: "section_entries ends_section [''files:'', ''  - 1kb'', ''other:'', ''  - 2kb''] = [''1kb'']"
    by (simp add: section_entries_def ends_section_def string_eval)
  have "availableFiles (parseYamlFiles constructed
     (''files:\<newline>  - 1kb\<newline>other:\<newline>  - 2kb'')) = [''1kb'']"
    using section_scan [of constructed
        "''files:\<newline>  - 1kb\<newline>other:\<newline>  - 2kb''"]
    unfolding t e by (simp add: constructed_def array_sort_def)
  moreover have "availableFiles (parseYamlFiles constructed (''name: x\<newline>- 1kb'')) = []"
    using section_scan [of constructed "''name: x\<newline>- 1kb''"] n by blast
  moreover have "trim ''name: x'' \<noteq> ''files:''" "trim ''- 1kb'' \<noteq> ''files:''"
    by (simp_all add: string_eval)
  ultimately show ?thesis using s by blast
qed

text \<open>
  C2. The catalog that \<open>parseYamlFiles\<close> leaves is in ascending order of \<open>parseSize\<close>,
  and the sort is stable: for every byte count, the tokens of that count stand in the
  catalog in the order in which the loop collected them. The raw entries
  \<open>1gb, 100mb, 1kb, 1.5gb\<close> come out as \<open>1kb, 100mb, 1gb, 1.5gb\<close>.
\<close>

theorem catalog_sorted_stable:
  "sorted_wrt (\<lambda>a b. fge (parseSize b) (parseSize a)) (availableFiles (parseYamlFiles this yamlText)) \<and>
   (\<forall>B. filter (\<lambda>t. parseSize t = B) (availableFiles (parseYamlFiles this yamlText)) =
        filter (\<lambda>t. parseSize t = B) (scan_lines False (split_nl yamlText) (availableFiles this))) \<and>
   array_sort (\<lambda>a b. fsub (parseSize a) (parseSize b)) [''1gb'', ''100mb'', ''1kb'', ''1.5gb'']
     = [''1kb'', ''100mb'', ''1gb'', ''1.5gb'']"
proof -
  have k: "size_key ''1gb'' = 1073741824" "size_key ''100mb'' = 104857600"
    "size_key ''1kb'' = 1024" "size_key ''1.5gb'' = 1610612736"
    by (simp_all add: size_key_def ex_1gb ex_100mb ex_1kb ex_15gb)
  have c: "array_sort (\<lambda>a b. fsub (parseSize a) (parseSize b)) [''1gb'', ''100mb'', ''1kb'', ''1.5gb'']
     = [''1kb'', ''100mb'', ''1gb'', ''1.5gb'']"
    unfolding array_sort_sort_key by (simp add: sort_key_def k)
  have a: "sorted_wrt (\<lambda>a b. fge (parseSize b) (parseSize a)) (availableFiles (parseYamlFiles this yamlText))"
    by (simp add: parseYamlFiles_def parse_sorted)
  have b: "\<forall>B. filter (\<lambda>t. parseSize t = B) (availableFiles (parseYamlFiles this yamlText)) =
        filter (\<lambda>t. parseSize t = B) (scan_lines False (split_nl yamlText) (availableFiles this))"
    by (simp add: parseYamlFiles_def parse_stable)
  from a b c show ?thesis by blast
qed

theorem catalog_sorted_stable_witness:
  "availableFiles (parseYamlFiles constructed ''files:\<newline>  - 1mb\<newline>  - 1024KB\<newline>  - 1kb'')
     = [''1kb'', ''1mb'', ''1024kb''] \<and>
   sorted_wrt (\<lambda>a b. fge (parseSize b) (parseSize a)) [''1kb'', ''1mb'', ''1024kb'']"
proof -
  have s: "split_nl ''files:\<newline>  - 1mb\<newline>  - 1024KB\<newline>  - 1kb''
      = [''files:'', ''  - 1mb'', ''  - 1024KB'', ''  - 1kb'']"
    by simp
  have e: "section_entries ends_section [''files:'', ''  - 1mb'', ''  - 1024KB'', ''  - 1kb'']
      = [''1mb'', ''1024kb'', ''1kb'']"
    by (simp add: section_entries_def ends_section_def string_eval)
  have k: "size_key ''1kb'' = 1024" "size_key ''1mb'' = 1048576" "size_key ''1024kb'' = 1048576"
    by (simp_all add: size_key_def ex_1kb ex_1mb ex_1024kb)
  have a: "availableFiles (parseYamlFiles constructed ''files:\<newline>  - 1mb\<newline>  - 1024KB\<newline>  - 1kb'')
     = [''1kb'', ''1mb'', ''1024kb'']"
    by (simp only: parseYamlFiles_def scan_section_entries s e array_sort_sort_key)
      (simp add: constructed_def k)
  from catalog_sorted_stable [of constructed "''files:\<newline>  - 1mb\<newline>  - 1024KB\<newline>  - 1kb''"]
  show ?thesis unfolding a by blast
qed

text \<open>
  C6, what the code does at every token. \<open>formatSize\<close> turns the token into its byte
  count \<open>B\<close>, which is a double from 0 on or \<open>Infinity\<close>. For a finite \<open>B\<close> from
  \<open>1024^3\<close> on whose size in GiB is below \<open>10^21\<close> it renders \<open>B / 1024^3\<close> to one
  decimal place, a trailing \<open>.0\<close> left out, with \<open> GB\<close>; from \<open>1024^2\<close> on it renders
  \<open>B / 1024^2\<close> rounded to the nearest whole number with \<open> MB\<close>; below that
  \<open>B / 1024\<close> rounded to the nearest whole number with \<open> KB\<close>. \<open>1024mb\<close> gives
  \<open>1 GB\<close>, \<open>512mb\<close> gives \<open>512 MB\<close>, \<open>512kb\<close> gives \<open>512 KB\<close> and \<open>2.5gb\<close> gives
  \<open>2.5 GB\<close>. From \<open>10^21\<close> GiB on the code does not render one decimal place:
  \<open>toFixed\<close> gives the exponent notation of \<open>Number::toString\<close> there, from which the
  first \<open>.0\<close> is cut out, and an infinite \<open>B\<close> gives \<open>Infinity GB\<close>.
\<close>

theorem formatSize_display:
  "(parseSize s = Fin b \<and> 1024 ^ 3 \<le> b \<and> b / 1024 ^ 3 < 10 ^ 21 \<longrightarrow>
      formatSize s = Inr (one_decimal (b / 1024 ^ 3) @ '' GB'')) \<and>
   (parseSize s = Fin b \<and> 1024 ^ 2 \<le> b \<and> b < 1024 ^ 3 \<longrightarrow>
      formatSize s = Inr (digits (nearest_whole (b / 1024 ^ 2)) @ '' MB'')) \<and>
   (parseSize s = Fin b \<and> b < 1024 ^ 2 \<longrightarrow>
      formatSize s = Inr (digits (nearest_whole (b / 1024)) @ '' KB'')) \<and>
   formatSize ''1024mb'' = Inr ''1 GB'' \<and> formatSize ''512mb'' = Inr ''512 MB'' \<and>
   formatSize ''512kb'' = Inr ''512 KB'' \<and> formatSize ''2.5gb'' = Inr ''2.5 GB'' \<and>
   (parseSize s = Fin b \<and> 10 ^ 21 \<le> b / 1024 ^ 3 \<longrightarrow>
      formatSize s = Inr (replace_str ''.0'' [] (toString_large (b / 1024 ^ 3)) @ '' GB'')) \<and>
   (parseSize s = PosInf \<longrightarrow> formatSize s = Inr ''Infinity GB'') \<and>
   nonneg_number (parseSize s)"
proof -
  have "formatSize ''1024mb'' = Inr (one_decimal (1073741824 / pow2 30) @ '' GB'')"
    by (rule formatSize_GB [OF ex_1024mb]) (simp_all add: pow2_eval)
  then have 1: "formatSize ''1024mb'' = Inr ''1 GB''"
    by (simp add: pow2_eval one_decimal_examples)
  have "formatSize ''512mb'' = Inr (digits (nearest_whole (536870912 / pow2 20)) @ '' MB'')"
    by (rule formatSize_MB [OF ex_512mb]) (simp_all add: pow2_eval)
  then have 2: "formatSize ''512mb'' = Inr ''512 MB''"
    by (simp add: pow2_eval digits_examples)
  have "formatSize ''512kb'' = Inr (digits (nearest_whole (524288 / pow2 10)) @ '' KB'')"
    by (rule formatSize_KB [OF ex_512kb]) (simp_all add: pow2_eval)
  then have 3: "formatSize ''512kb'' = Inr ''512 KB''"
    by (simp add: pow2_eval digits_examples)
  have "formatSize ''2.5gb'' = Inr (one_decimal (2684354560 / pow2 30) @ '' GB'')"
    by (rule formatSize_GB [OF ex_25gb]) (simp_all add: pow2_eval)
  then have 4: "formatSize ''2.5gb'' = Inr ''2.5 GB''"
    by (simp add: pow2_eval one_decimal_examples)
  have G: "parseSize s = Fin b \<and> 1024 ^ 3 \<le> b \<and> b / 1024 ^ 3 < 10 ^ 21 \<longrightarrow>
      formatSize s = Inr (one_decimal (b / 1024 ^ 3) @ '' GB'')"
    using formatSize_GB [of s b] by (simp add: pow2_eval)
  have M: "parseSize s = Fin b \<and> 1024 ^ 2 \<le> b \<and> b < 1024 ^ 3 \<longrightarrow>
      formatSize s = Inr (digits (nearest_whole (b / 1024 ^ 2)) @ '' MB'')"
    using formatSize_MB [of s b] by (simp add: pow2_eval)
  have K: "parseSize s = Fin b \<and> b < 1024 ^ 2 \<longrightarrow>
      formatSize s = Inr (digits (nearest_whole (b / 1024)) @ '' KB'')"
    using formatSize_KB [of s b] by (simp add: pow2_eval)
  have H: "parseSize s = Fin b \<and> 10 ^ 21 \<le> b / 1024 ^ 3 \<longrightarrow>
      formatSize s = Inr (replace_str ''.0'' [] (toString_large (b / 1024 ^ 3)) @ '' GB'')"
    using formatSize_huge [of s b] by (simp add: pow2_eval)
  have I: "parseSize s = PosInf \<longrightarrow> formatSize s = Inr ''Infinity GB''"
    using formatSize_Inf by blast
  from G M K 1 2 3 4 H I parseSize_nonneg [of s] show ?thesis by (intro conjI)
qed

theorem formatSize_display_witness:
  "parseSize ''1.5gb'' = Fin 1610612736 \<and> formatSize ''1.5gb'' = Inr ''1.5 GB'' \<and>
   parseSize ''100mb'' = Fin 104857600 \<and> formatSize ''100mb'' = Inr ''100 MB'' \<and>
   parseSize ''1kb'' = Fin 1024 \<and> formatSize ''1kb'' = Inr ''1 KB'' \<and>
   parseSize ''1000000000000000000000gb'' = Fin (10 ^ 21 * 1024 ^ 3) \<and>
   formatSize ''1000000000000000000000gb'' = Inr ''1e+21 GB'' \<and>
   parseSize (''1'' @ replicate 309 CHR ''0'' @ ''gb'') = PosInf \<and>
   formatSize (''1'' @ replicate 309 CHR ''0'' @ ''gb'') = Inr ''Infinity GB''"
proof -
  have "formatSize ''1.5gb'' = Inr (one_decimal (1610612736 / 1024 ^ 3) @ '' GB'')"
    using formatSize_display [of "''1.5gb''" 1610612736] ex_15gb by simp
  then have a: "formatSize ''1.5gb'' = Inr ''1.5 GB''" by (simp add: one_decimal_examples)
  have "formatSize ''100mb'' = Inr (digits (nearest_whole (104857600 / 1024 ^ 2)) @ '' MB'')"
    using formatSize_display [of "''100mb''" 104857600] ex_100mb by simp
  then have b: "formatSize ''100mb'' = Inr ''100 MB''" by (simp add: digits_examples)
  have "formatSize ''1kb'' = Inr (digits (nearest_whole (1024 / 1024)) @ '' KB'')"
    using formatSize_display [of "''1kb''" 1024] ex_1kb by simp
  then have c: "formatSize ''1kb'' = Inr ''1 KB''" by (simp add: digits_Suc0)
  have "formatSize ''1000000000000000000000gb'' =
      Inr (replace_str ''.0'' [] (toString_large 1000000000000000000000) @ '' GB'')"
    using formatSize_display [of "''1000000000000000000000gb''" "10 ^ 21 * 1024 ^ 3"] ex_huge
    by simp
  then have d: "formatSize ''1000000000000000000000gb'' = Inr ''1e+21 GB''"
    by (simp add: toString_1e21 startsWith_def)
  have e: "formatSize (''1'' @ replicate 309 CHR ''0'' @ ''gb'') = Inr ''Infinity GB''"
    using formatSize_display [of "''1'' @ replicate 309 CHR ''0'' @ ''gb''" 0] ex_infinite
    by blast
  from a b c d e ex_15gb ex_100mb ex_1kb ex_huge ex_infinite show ?thesis by (intro conjI)
qed

theorem formatSize_display_counterexample:
  "parseSize ''1050000000000000000000gb'' = Fin (1050000000000000000000 * 1024 ^ 3) \<and>
   (1024::rat) ^ 3 \<le> 1050000000000000000000 * 1024 ^ 3 \<and>
   formatSize ''1050000000000000000000gb'' = Inr ''15e+21 GB'' \<and>
   one_decimal (1050000000000000000000 * 1024 ^ 3 / 1024 ^ 3) @ '' GB''
     = ''1050000000000000000000 GB'' \<and>
   parseSize ''1000000000000000000000gb'' = Fin (10 ^ 21 * 1024 ^ 3) \<and>
   formatSize ''1000000000000000000000gb'' = Inr ''1e+21 GB'' \<and>
   one_decimal (10 ^ 21 * 1024 ^ 3 / 1024 ^ 3) @ '' GB'' = ''1000000000000000000000 GB''"
proof -
  have "formatSize ''1050000000000000000000gb'' =
      Inr (replace_str ''.0'' []
        (toString_large (1050000000000000000000 * 1024 ^ 3 / pow2 30)) @ '' GB'')"
    by (rule formatSize_huge [OF ex_huge_105]) (simp add: pow2_eval)
  then have "formatSize ''1050000000000000000000gb'' =
      Inr (replace_str ''.0'' [] ''1.05e+21'' @ '' GB'')"
    by (simp add: pow2_eval toString_1_05e21)
  then have f: "formatSize ''1050000000000000000000gb'' = Inr ''15e+21 GB''"
    by (simp only: replace_1_05e21) simp
  have "nearest_whole (1050000000000000000000 * 10) = 10500000000000000000000"
    using nearest_whole_of_nat [of 10500000000000000000000] by simp
  then have o: "one_decimal 1050000000000000000000 = ''1050000000000000000000''"
    by (simp add: one_decimal_def Let_def digits_1_05e21)
  have "formatSize ''1000000000000000000000gb'' =
      Inr (replace_str ''.0'' [] (toString_large (10 ^ 21 * 1024 ^ 3 / pow2 30)) @ '' GB'')"
    by (rule formatSize_huge [OF ex_huge]) (simp add: pow2_eval)
  then have g: "formatSize ''1000000000000000000000gb'' = Inr ''1e+21 GB''"
    by (simp add: pow2_eval toString_1e21 startsWith_def)
  have "nearest_whole (10 ^ 21 * 10) = 10 ^ 22"
    using nearest_whole_of_nat [of "10 ^ 22"] by simp
  then have p: "one_decimal 1000000000000000000000 = ''1000000000000000000000''"
    by (simp add: one_decimal_def Let_def digits_1e21)
  have "parseSize ''1050000000000000000000gb'' = Fin (1050000000000000000000 * 1024 ^ 3)"
    by (rule ex_huge_105)
  with f o g p show ?thesis using ex_huge by simp
qed

text \<open>
  C10. A valid token whose byte count is below 512 is displayed as \<open>0 KB\<close>. The token
  \<open>0.4kb\<close> is one: its byte count is the double nearest to 409.6, which is positive and
  below 512, so \<open>0 KB\<close> is also the display of a well-formed token with a positive size.
\<close>

theorem zero_kb_for_small_token:
  "(is_token s \<and> parseSize s = Fin b \<and> b < 512 \<longrightarrow> formatSize s = Inr ''0 KB'') \<and>
   is_token ''0.4kb'' \<and>
   (\<exists>b. parseSize ''0.4kb'' = Fin b \<and> round_double (4096 / 10) = Fin b \<and> 0 < b \<and> b < 512) \<and>
   formatSize ''0.4kb'' = Inr ''0 KB''"
proof -
  have g: "is_token s \<and> parseSize s = Fin b \<and> b < 512 \<longrightarrow> formatSize s = Inr ''0 KB''"
    using formatSize_below_512 by blast
  have t: "is_token ''0.4kb''" by (simp add: is_token_def token_eval)
  have e: "\<exists>b. parseSize ''0.4kb'' = Fin b \<and> round_double (4096 / 10) = Fin b \<and> 0 < b \<and> b < 512"
    by (rule exI [of _ "3602879701896397 / 8796093022208"])
      (simp add: ex_04kb round_double_4096_tenths)
  have "formatSize ''0.4kb'' = Inr ''0 KB''"
    by (rule formatSize_below_512 [OF ex_04kb]) simp
  with g t e show ?thesis by blast
qed

theorem zero_kb_for_small_token_witness:
  "is_token ''0.1kb'' \<and> parseSize ''0.1kb'' = Fin (3602879701896397 / 35184372088832) \<and>
   formatSize ''0.1kb'' = Inr ''0 KB''"
proof -
  have t: "is_token ''0.1kb''" by (simp add: is_token_def token_eval)
  have "(3602879701896397 / 35184372088832 :: rat) < 512" by simp
  with zero_kb_for_small_token [of "''0.1kb''" "3602879701896397 / 35184372088832"] t ex_01kb
  show ?thesis by blast
qed

text \<open>
  C5. A string that is not a token has the byte count 0 and the display \<open>0 KB\<close>;
  neither function raises. A list item line whose entry is not a token extends the list
  like any other and the loop goes on with the next line, and the catalog has the
  entries of all list item lines of the section, counted with repetitions, whether they
  are tokens or not. \<open>banana\<close>, \<open>5xb\<close> and \<open>-1mb\<close> are not tokens, and a
  document that lists \<open>banana\<close> before \<open>1kb\<close> gives the catalog of both.
\<close>

theorem malformed_token_fallback:
  "(\<not> is_token s \<longrightarrow> parseSize s = Fin 0 \<and> formatSize s = Inr ''0 KB'') \<and>
   (\<not> is_token (item_entry (trim line)) \<and> startsWith (trim line) ''- '' \<longrightarrow>
      scan_lines True (line # rest) files = scan_lines True rest (files @ [item_entry (trim line)])) \<and>
   mset (availableFiles (parseYamlFiles this yamlText)) =
     mset (availableFiles this) + mset (section_entries ends_section (split_nl yamlText)) \<and>
   \<not> is_token ''banana'' \<and> \<not> is_token ''5xb'' \<and> \<not> is_token ''-1mb'' \<and>
   availableFiles (parseYamlFiles constructed ''files:\<newline>- banana\<newline>- 1kb'') = [''banana'', ''1kb'']"
proof -
  have a: "\<not> is_token s \<longrightarrow> parseSize s = Fin 0 \<and> formatSize s = Inr ''0 KB''"
  proof
    assume "\<not> is_token s"
    then have "parseSize s = Fin 0" by (rule parseSize_not_token)
    moreover from formatSize_below_512 [OF this] have "formatSize s = Inr ''0 KB''" by simp
    ultimately show "parseSize s = Fin 0 \<and> formatSize s = Inr ''0 KB''" by blast
  qed
  have b: "\<not> is_token (item_entry (trim line)) \<and> startsWith (trim line) ''- '' \<longrightarrow>
      scan_lines True (line # rest) files = scan_lines True rest (files @ [item_entry (trim line)])"
    using scan_item by blast
  have c: "mset (availableFiles (parseYamlFiles this yamlText)) =
     mset (availableFiles this) + mset (section_entries ends_section (split_nl yamlText))"
    by (simp add: parseYamlFiles_def parse_mset scan_section_entries)
  have d: "\<not> is_token ''banana''" "\<not> is_token ''5xb''" "\<not> is_token ''-1mb''"
    by (simp_all add: is_token_def token_eval)
  have s: "split_nl ''files:\<newline>- banana\<newline>- 1kb'' = [''files:'', ''- banana'', ''- 1kb'']"
    by simp
  have e: "section_entries ends_section [''files:'', ''- banana'', ''- 1kb''] = [''banana'', ''1kb'']"
    by (simp add: section_entries_def ends_section_def string_eval)
  have k: "size_key ''banana'' = 0" "size_key ''1kb'' = 1024"
    by (simp_all add: size_key_def ex_1kb parseSize_not_token d)
  have f: "availableFiles (parseYamlFiles constructed ''files:\<newline>- banana\<newline>- 1kb'') = [''banana'', ''1kb'']"
    by (simp only: parseYamlFiles_def scan_section_entries s e array_sort_sort_key)
      (simp add: constructed_def k)
  from a b c d f show ?thesis by (intro conjI)
qed

theorem malformed_token_fallback_witness:
  "\<not> is_token ''banana'' \<and> parseSize ''banana'' = Fin 0 \<and> formatSize ''banana'' = Inr ''0 KB'' \<and>
   \<not> is_token ''5xb'' \<and> parseSize ''5xb'' = Fin 0 \<and> formatSize ''5xb'' = Inr ''0 KB'' \<and>
   \<not> is_token ''-1mb'' \<and> parseSize ''-1mb'' = Fin 0 \<and> formatSize ''-1mb'' = Inr ''0 KB'' \<and>
   scan_lines True [''- banana'', ''- 1kb''] [] = [''banana'', ''1kb'']"
proof -
  note value_of = malformed_token_fallback [THEN conjunct1]
  note goes_on = malformed_token_fallback [THEN conjunct2, THEN conjunct1]
  have d: "\<not> is_token ''banana''" "\<not> is_token ''5xb''" "\<not> is_token ''-1mb''"
    by (simp_all add: is_token_def token_eval)
  have i: "startsWith (trim ''- banana'') ''- ''" "item_entry (trim ''- banana'') = ''banana''"
    "startsWith (trim ''- 1kb'') ''- ''" "item_entry (trim ''- 1kb'') = ''1kb''"
    by (simp_all add: string_eval)
  have "scan_lines True [''- banana'', ''- 1kb''] [] = scan_lines True [''- 1kb''] [''banana'']"
    using goes_on [of "''- banana''" "[''- 1kb'']" "[]"] i(1) d(1) unfolding i(2) by simp
  also have "\<dots> = [''banana'', ''1kb'']"
    using scan_item [OF i(3), of "[]" "[''banana'']"] unfolding i(4) by simp
  finally have l: "scan_lines True [''- banana'', ''- 1kb''] [] = [''banana'', ''1kb'']" .
  have 1: "parseSize ''banana'' = Fin 0 \<and> formatSize ''banana'' = Inr ''0 KB''"
    using value_of [of "''banana''"] d(1) by (rule mp)
  have 2: "parseSize ''5xb'' = Fin 0 \<and> formatSize ''5xb'' = Inr ''0 KB''"
    using value_of [of "''5xb''"] d(2) by (rule mp)
  have 3: "parseSize ''-1mb'' = Fin 0 \<and> formatSize ''-1mb'' = Inr ''0 KB''"
    using value_of [of "''-1mb''"] d(3) by (rule mp)
  from d 1 2 3 l show ?thesis by (intro conjI) (elim conjE, assumption)+
qed

text \<open>
  C8. For every string \<open>parseSize\<close> returns a number that is not negative (a double from
  0 on, or \<open>Infinity\<close>; never NaN), and \<open>formatSize\<close> returns a string: the \<open>toFixed\<close>
  calls in it never raise. For every document \<open>parseYamlFiles\<close> returns, with a token
  list in place of the old one that has at most one entry per line more. As functions
  of the logic the three are total: their loops are recursions with a termination proof.
\<close>

theorem total_functions:
  "nonneg_number (parseSize s) \<and> (\<exists>t. formatSize s = Inr t) \<and>
   (\<exists>tokens. parseYamlFiles this yamlText = this\<lparr>availableFiles := tokens\<rparr> \<and>
      length tokens \<le> length (availableFiles this) + length (split_nl yamlText))"
proof -
  define collected where "collected = scan_lines False (split_nl yamlText) (availableFiles this)"
  define tokens where "tokens = array_sort (\<lambda>a b. fsub (parseSize a) (parseSize b)) collected"
  have p: "parseYamlFiles this yamlText = this\<lparr>availableFiles := tokens\<rparr>"
    by (simp add: parseYamlFiles_def tokens_def collected_def)
  have "mset tokens = mset collected" unfolding tokens_def by (rule parse_mset)
  then have "length tokens = length collected" by (rule mset_eq_length)
  also have "\<dots> \<le> length (availableFiles this) + length (split_nl yamlText)"
    unfolding collected_def by (rule scan_lines_length)
  finally have "length tokens \<le> length (availableFiles this) + length (split_nl yamlText)" .
  with p have "\<exists>tokens. parseYamlFiles this yamlText = this\<lparr>availableFiles := tokens\<rparr> \<and>
      length tokens \<le> length (availableFiles this) + length (split_nl yamlText)" by blast
  then show ?thesis using parseSize_nonneg [of s] formatSize_total [of s] by blast
qed

theorem total_functions_witness:
  "nonneg_number (parseSize ''12..gb'') \<and> (\<exists>t. formatSize ''12..gb'' = Inr t) \<and>
   (\<exists>tokens. parseYamlFiles constructed ''files:\<newline>- x'' = constructed\<lparr>availableFiles := tokens\<rparr> \<and>
      length tokens \<le> 2)"
proof -
  have l: "length (availableFiles constructed) + length (split_nl ''files:\<newline>- x'') = 2"
    by (simp add: constructed_def)
  from total_functions [of "''12..gb''" constructed "''files:\<newline>- x''"]
  show ?thesis unfolding l .
qed

text \<open>
  C4, as the code has it. When \<open>fetch\<close> rejects, or \<open>response.text()\<close> rejects, the
  page shows the error message. When both fulfil the body is parsed and displayed
  whatever the HTTP status of the response is: the page never shows the error message
  then, and shows the no-files message exactly when the catalog is empty. So an empty
  document fetched with status 200 gives the no-files message, and so does the body
  \<open>Not Found\<close> of a response with status 404, for a resource that is missing.
\<close>

theorem load_outcomes:
  "filesList (loadAvailableFiles Rejected this) = ErrorMessage \<and>
   filesList (loadAvailableFiles (Fulfilled \<lparr>status = n, text_of = Rejected\<rparr>) this) = ErrorMessage \<and>
   filesList (loadAvailableFiles (Fulfilled \<lparr>status = n, text_of = Fulfilled yamlText\<rparr>) this)
     \<noteq> ErrorMessage \<and>
   (filesList (loadAvailableFiles (Fulfilled \<lparr>status = n, text_of = Fulfilled yamlText\<rparr>) this)
       = NoFilesMessage
     \<longleftrightarrow> availableFiles (parseYamlFiles this yamlText) = []) \<and>
   filesList (loadAvailableFiles (Fulfilled \<lparr>status = 200, text_of = Fulfilled []\<rparr>) constructed)
     = NoFilesMessage \<and>
   filesList (loadAvailableFiles (Fulfilled \<lparr>status = 404, text_of = Fulfilled ''Not Found''\<rparr>)
       constructed) = NoFilesMessage"
proof -
  have r: "filesList (loadAvailableFiles Rejected this) = ErrorMessage"
    "filesList (loadAvailableFiles (Fulfilled \<lparr>status = n, text_of = Rejected\<rparr>) this) = ErrorMessage"
    by (simp_all add: loadAvailableFiles_def showError_def)
  have f: "filesList (loadAvailableFiles (Fulfilled \<lparr>status = m, text_of = Fulfilled t\<rparr>) that)
        \<noteq> ErrorMessage \<and>
      (filesList (loadAvailableFiles (Fulfilled \<lparr>status = m, text_of = Fulfilled t\<rparr>) that)
          = NoFilesMessage
        \<longleftrightarrow> availableFiles (parseYamlFiles that t) = [])" for m t that
  proof -
    obtain this' where "displayFiles (parseYamlFiles that t) = Inr this'"
      "filesList this' \<noteq> ErrorMessage"
      "filesList this' = NoFilesMessage \<longleftrightarrow> availableFiles (parseYamlFiles that t) = []"
      using displayFiles_total by blast
    then show ?thesis by (simp add: loadAvailableFiles_def)
  qed
  have e: "filesList (loadAvailableFiles (Fulfilled \<lparr>status = 200, text_of = Fulfilled []\<rparr>) constructed)
      = NoFilesMessage"
    using f [of 200 "[]" constructed] by (simp add: parse_no_marker constructed_empty)
  have m: "filesList (loadAvailableFiles (Fulfilled \<lparr>status = 404, text_of = Fulfilled ''Not Found''\<rparr>)
      constructed) = NoFilesMessage"
    using f [of 404 "''Not Found''" constructed] by (simp add: parse_no_marker constructed_empty)
  from r f [of n yamlText this] e m show ?thesis by (intro conjI) (elim conjE, assumption)+
qed

theorem load_outcomes_witness:
  "filesList (loadAvailableFiles (Fulfilled \<lparr>status = 500, text_of = Rejected\<rparr>) constructed)
     = ErrorMessage \<and>
   availableFiles (parseYamlFiles constructed ''name: x'') = [] \<and>
   filesList (loadAvailableFiles (Fulfilled \<lparr>status = 200, text_of = Fulfilled ''name: x''\<rparr>)
     constructed) = NoFilesMessage"
proof -
  have p: "availableFiles (parseYamlFiles constructed ''name: x'') = []"
    by (simp add: parseYamlFiles_def constructed_def array_sort_def string_eval)
  from load_outcomes [of constructed 500] load_outcomes [of constructed 200 "''name: x''"] p
  show ?thesis by (intro conjI) (elim conjE, simp)+
qed

theorem load_missing_resource:
  "filesList (loadAvailableFiles (Fulfilled \<lparr>status = 404, text_of = Fulfilled ''Not Found''\<rparr>)
      constructed) = NoFilesMessage \<and>
   filesList (loadAvailableFiles (Fulfilled \<lparr>status = 404, text_of = Fulfilled ''Not Found''\<rparr>)
      constructed) \<noteq> ErrorMessage \<and>
   filesList (loadAvailableFiles (Fulfilled \<lparr>status = 200, text_of = Fulfilled ''files:\<newline>- 1kb''\<rparr>)
      constructed) = FileCards [(''1 KB'', ''1kb'')]"
proof -
  have s: "split_nl ''files:\<newline>- 1kb'' = [''files:'', ''- 1kb'']" by simp
  have e: "section_entries ends_section [''files:'', ''- 1kb''] = [''1kb'']"
    by (simp add: section_entries_def ends_section_def string_eval)
  have p: "parseYamlFiles constructed ''files:\<newline>- 1kb'' = constructed\<lparr>availableFiles := [''1kb'']\<rparr>"
    by (simp only: parseYamlFiles_def scan_section_entries s e)
      (simp add: constructed_def array_sort_def)
  have "filesList (loadAvailableFiles (Fulfilled \<lparr>status = 200, text_of = Fulfilled ''files:\<newline>- 1kb''\<rparr>)
      constructed) = FileCards [(''1 KB'', ''1kb'')]"
    by (simp add: loadAvailableFiles_def p displayFiles_def formatSize_1kb Let_def)
  moreover have "filesList (loadAvailableFiles (Fulfilled \<lparr>status = 404, text_of = Fulfilled ''Not Found''\<rparr>)
      constructed) = NoFilesMessage"
    by (simp add: loadAvailableFiles_def parse_no_marker displayFiles_def constructed_empty Let_def)
  ultimately show ?thesis by simp
qed

end
